theory Spec2Isabelle
  imports Main
begin

section \<open>Wire messages (connection.go, lines 15--61)\<close>

text \<open>
  \<^verbatim>\<open>operationMessageType\<close> is a Go string type, and a message read from the socket can carry
  any string as its type. The thirteen constants of the source are the strings below.
\<close>

type_synonym operationMessageType = string

definition typeComplete :: operationMessageType where "typeComplete = ''complete''"
definition typeConnectionAck :: operationMessageType where "typeConnectionAck = ''connection_ack''"
definition typeConnectionError :: operationMessageType where "typeConnectionError = ''connection_error''"
definition typeConnectionInit :: operationMessageType where "typeConnectionInit = ''connection_init''"
definition typeConnectionKeepAlive :: operationMessageType where "typeConnectionKeepAlive = ''ka''"
definition typeConnectionTerminate :: operationMessageType where "typeConnectionTerminate = ''connection_terminate''"
definition typeData :: operationMessageType where "typeData = ''data''"
definition typeError :: operationMessageType where "typeError = ''error''"
definition typeStart :: operationMessageType where "typeStart = ''start''"
definition typeStop :: operationMessageType where "typeStop = ''stop''"
definition typePing :: operationMessageType where "typePing = ''ping''"
definition typeReceive :: operationMessageType where "typeReceive = ''receive''"
definition typePong :: operationMessageType where "typePong = ''pong''"

text \<open>
  \<^verbatim>\<open>json.RawMessage\<close> is a byte slice: a \<open>string\<close> here, \<open>nil\<close> being the empty one
  (both are left out of the frame by \<^verbatim>\<open>omitempty\<close>).
\<close>

type_synonym rawMessage = string

record operationMessage =
  ID :: string
  Payload :: rawMessage
  Type :: operationMessageType

type_synonym variables = "(string \<times> string) list"

record startMessagePayload =
  OperationName :: string
  Query :: string
  Variables :: variables

record receiveMessagePayload =
  rp_ID :: string

text \<open>The message that \<^verbatim>\<open>send(id, omType, payload)\<close> puts on the channel (line 122).\<close>

definition frame :: "string \<Rightarrow> operationMessageType \<Rightarrow> rawMessage \<Rightarrow> operationMessage" where
  "frame i t p = \<lparr>ID = i, Payload = p, Type = t\<rparr>"

section \<open>errPayload (lines 279--286)\<close>

text \<open>
  \<^verbatim>\<open>errPayload\<close> marshals a struct with the single string field \<^verbatim>\<open>Message\<close>, tagged
  \<^verbatim>\<open>json:"message"\<close>, and drops the error of \<^verbatim>\<open>json.Marshal\<close>. The encoder is the
  standard library's, not this repository's. Its string encoding is modelled here as the
  current releases of Go write it: the quote and the backslash escaped, \<^verbatim>\<open>\b\<close>, \<^verbatim>\<open>\f\<close>,
  \<^verbatim>\<open>\n\<close>, \<^verbatim>\<open>\r\<close> and \<^verbatim>\<open>\t\<close> for the five control characters that have a short escape,
  \<^verbatim>\<open>\u00XX\<close> for the other control characters and for \<^verbatim>\<open><\<close>, \<^verbatim>\<open>>\<close> and \<^verbatim>\<open>&\<close>,
  \<^verbatim>\<open>\u2028\<close> and \<^verbatim>\<open>\u2029\<close> for the two separators, and the three bytes of U+FFFD in the
  place of every byte that is not part of a valid UTF-8 encoding. Releases of Go differ in
  the escapes they choose (older ones write \<^verbatim>\<open>\u0008\<close>, \<^verbatim>\<open>\u000c\<close> and the escape
  \<^verbatim>\<open>\ufffd\<close>), not in the string that the JSON text denotes.
\<close>

definition hex :: "nat \<Rightarrow> char" where
  "hex n = ''0123456789abcdef'' ! (n mod 16)"

definition bslash :: char where
  "bslash = CHR 0x5C"

definition dquote :: char where
  "dquote = CHR 0x22"

definition byte :: "char \<Rightarrow> nat" where
  "byte b = of_char b"

definition escapeByte :: "char \<Rightarrow> string" where
  "escapeByte b =
     (if b = bslash \<or> b = dquote then [bslash, b]
      else if b = CHR 0x08 then [bslash, CHR ''b'']
      else if b = CHR 0x0C then [bslash, CHR ''f'']
      else if b = CHR 0x0A then [bslash, CHR ''n'']
      else if b = CHR 0x0D then [bslash, CHR ''r'']
      else if b = CHR 0x09 then [bslash, CHR ''t'']
      else if byte b < 0x20 \<or> b = CHR ''<'' \<or> b = CHR ''>'' \<or> b = CHR ''&''
        then [bslash, CHR ''u'', CHR ''0'', CHR ''0'', hex (byte b div 16), hex (byte b)]
      else [b])"

definition contByte :: "char \<Rightarrow> bool" where
  "contByte b = (0x80 \<le> byte b \<and> byte b \<le> 0xBF)"

text \<open>
  The range that \<^verbatim>\<open>utf8.DecodeRuneInString\<close> accepts for the second byte of a rune whose
  first byte is \<open>x\<close> (it excludes the overlong encodings, the surrogates and the values
  above U+10FFFF).
\<close>

definition secondByte :: "nat \<Rightarrow> char \<Rightarrow> bool" where
  "secondByte x b =
     ((if x = 0xE0 then 0xA0 else if x = 0xF0 then 0x90 else 0x80) \<le> byte b
      \<and> byte b \<le> (if x = 0xED then 0x9F else if x = 0xF4 then 0x8F else 0xBF))"

text \<open>
  The width of the rune that starts a byte string whose first byte is not ASCII, as
  \<^verbatim>\<open>utf8.DecodeRuneInString\<close> finds it; \<open>0\<close> stands for an invalid encoding (the decoder
  then returns \<^verbatim>\<open>RuneError\<close> with width 1).
\<close>

fun runeWidth :: "string \<Rightarrow> nat" where
  "runeWidth [] = 0"
| "runeWidth (b0 # r) =
     (if 0xC2 \<le> byte b0 \<and> byte b0 \<le> 0xDF then
        (case r of b1 # _ \<Rightarrow> if secondByte (byte b0) b1 then 2 else 0 | _ \<Rightarrow> 0)
      else if 0xE0 \<le> byte b0 \<and> byte b0 \<le> 0xEF then
        (case r of
           b1 # b2 # _ \<Rightarrow> if secondByte (byte b0) b1 \<and> contByte b2 then 3 else 0
         | _ \<Rightarrow> 0)
      else if 0xF0 \<le> byte b0 \<and> byte b0 \<le> 0xF4 then
        (case r of
           b1 # b2 # b3 # _ \<Rightarrow>
             if secondByte (byte b0) b1 \<and> contByte b2 \<and> contByte b3 then 4 else 0
         | _ \<Rightarrow> 0)
      else 0)"

text \<open>The three bytes of U+FFFD, the replacement character.\<close>

definition replacement :: string where
  "replacement = [CHR 0xEF, CHR 0xBF, CHR 0xBD]"

fun escapeString :: "string \<Rightarrow> string" where
  "escapeString [] = []"
| "escapeString (b # bs) =
     (if byte b < 0x80 then escapeByte b @ escapeString bs
      else if runeWidth (b # bs) = 0 then replacement @ escapeString bs
      else if take 3 (b # bs) = [CHR 0xE2, CHR 0x80, CHR 0xA8]
        then (bslash # ''u2028'') @ escapeString (drop 2 bs)
      else if take 3 (b # bs) = [CHR 0xE2, CHR 0x80, CHR 0xA9]
        then (bslash # ''u2029'') @ escapeString (drop 2 bs)
      else take (runeWidth (b # bs)) (b # bs) @ escapeString (drop (runeWidth (b # bs) - 1) bs))"

definition jsonString :: "string \<Rightarrow> string" where
  "jsonString s = dquote # escapeString s @ [dquote]"

text \<open>
  \<^verbatim>\<open>json.Marshal\<close> on a struct, as far as \<^verbatim>\<open>errPayload\<close> needs it: the exported fields
  with the keys of their tags, in order, each a string or a value of a type that the
  encoder does not support (a channel, a function, a complex number; \<open>GoUnsupported\<close>
  carries the name of the type). A string always encodes; an unsupported value makes
  \<^verbatim>\<open>Marshal\<close> return an \<^verbatim>\<open>UnsupportedTypeError\<close> and no bytes. The result and the error are
  a sum, the error its message text.
\<close>

datatype goValue = GoString string | GoUnsupported string

fun encodeValue :: "goValue \<Rightarrow> string + string" where
  "encodeValue (GoString s) = Inr (jsonString s)"
| "encodeValue (GoUnsupported t) = Inl (''json: unsupported type: '' @ t)"

fun encodeFields :: "(string \<times> goValue) list \<Rightarrow> string + string list" where
  "encodeFields [] = Inr []"
| "encodeFields ((k, v) # fs) =
     (case encodeValue v of
        Inl e \<Rightarrow> Inl e
      | Inr b \<Rightarrow>
          (case encodeFields fs of
             Inl e \<Rightarrow> Inl e
           | Inr bs \<Rightarrow> Inr ((jsonString k @ '':'' @ b) # bs)))"

fun commaSeparated :: "string list \<Rightarrow> string" where
  "commaSeparated [] = []"
| "commaSeparated [b] = b"
| "commaSeparated (b # bs) = b @ '','' @ commaSeparated bs"

definition marshalStruct :: "(string \<times> goValue) list \<Rightarrow> string + rawMessage" where
  "marshalStruct fs =
     (case encodeFields fs of
        Inl e \<Rightarrow> Inl e
      | Inr bs \<Rightarrow> Inr (''{'' @ commaSeparated bs @ ''}''))"

text \<open>
  \<^verbatim>\<open>json.Marshal(struct{ Message string `json:"message"` }{Message: err.Error()})\<close>
  (lines 280--284).
\<close>

definition marshalMessage :: "string \<Rightarrow> string + rawMessage" where
  "marshalMessage m = marshalStruct [(''message'', GoString m)]"

text \<open>
  An error is modelled by its message text, \<^verbatim>\<open>err.Error()\<close>. The error of \<^verbatim>\<open>Marshal\<close> is
  dropped (\<^verbatim>\<open>b, _ :=\<close>), and with an error its bytes are \<^verbatim>\<open>nil\<close>.
\<close>

definition errPayload :: "string \<Rightarrow> rawMessage" where
  "errPayload err = (case marshalMessage err of Inr b \<Rightarrow> b | Inl _ \<Rightarrow> [])"

section \<open>The service and the decoders\<close>

text \<open>
  \<^verbatim>\<open>GraphQLService\<close> is an interface, and \<^verbatim>\<open>json.Unmarshal\<close> and \<^verbatim>\<open>json.Marshal\<close> on
  arbitrary values are library calls: they are parameters of the model, functions of their
  arguments, and the theorems hold for all of them. An error is the text of its message. \<^verbatim>\<open>Subscribe\<close> gets the number of the operation scope it is called
  under (the scope carries the random \<^verbatim>\<open>socket_id\<close> of lines 198--203, which only the service
  can read) and returns \<open>Some err\<close> when it fails; the values of the channel it returns on
  success arrive as events of the streaming goroutine. \<open>'v\<close> is the type of those values,
  \<open>'r\<close> the type of the response of \<^verbatim>\<open>Exec\<close>.
\<close>

record ('v, 'r) services =
  unmarshalInit :: "rawMessage \<Rightarrow> string option"
  unmarshalStart :: "rawMessage \<Rightarrow> string + startMessagePayload"
  unmarshalReceive :: "rawMessage \<Rightarrow> string + receiveMessagePayload"
  Subscribe :: "nat \<Rightarrow> string \<Rightarrow> string \<Rightarrow> variables \<Rightarrow> string option"
  Exec :: "string \<Rightarrow> string \<Rightarrow> variables \<Rightarrow> 'r"
  marshalValue :: "'v \<Rightarrow> string + rawMessage"
  marshalResponse :: "'r \<Rightarrow> string + rawMessage"

datatype call =
    SubscribeCall nat string string variables
  | ExecCall string string variables

section \<open>The state of one connection\<close>

text \<open>
  Three kinds of goroutine run for a connection: the dispatcher (\<^verbatim>\<open>readLoop\<close>), the writer
  (the goroutine of \<^verbatim>\<open>writeLoop\<close>) and one streaming goroutine for every \<^verbatim>\<open>start\<close> whose
  \<^verbatim>\<open>Subscribe\<close> succeeded. Each has a program counter.
\<close>

datatype after_send = Continue | Return

datatype stream_pc =
    NoGoroutine
  | AtSelect
  | Sending operationMessage after_send
  | ExitCancelled
  | ExitClosed

text \<open>
  One entry for every \<^verbatim>\<open>context.WithCancel(ctx)\<close> of line 197: the id of the message, whether
  the scope's own \<^verbatim>\<open>cancel\<close> has been called, and where its goroutine stands
  (\<open>NoGoroutine\<close> when \<^verbatim>\<open>Subscribe\<close> failed, \<open>ExitCancelled\<close> after the return of line 220,
  \<open>ExitClosed\<close> after the one of line 224).
\<close>

record operation =
  op_id :: string
  op_cancelled :: bool
  op_pc :: stream_pc

text \<open>
  The dispatcher is either running, with the frames of the message at hand that it has
  still to \<^verbatim>\<open>send\<close> (it reads the next message when there are none), or has returned.
\<close>

datatype disp_pc = Running "operationMessage list" | Returned

text \<open>
  The writer waits at its outer \<^verbatim>\<open>select\<close>, or holds a message before the check of lines
  135--139, or before the write of lines 141--147, or has returned; its deferred calls run
  \<^verbatim>\<open>conn.close()\<close> and close the channel \<^verbatim>\<open>stop\<close>, so \<open>WReturned\<close> is also "\<^verbatim>\<open>stop\<close> is closed".
\<close>

datatype writer_pc = WSelect | WCheck operationMessage | WWrite operationMessage | WReturned

datatype thread = Dispatcher | Stream nat

record config =
  readLimit :: int
  writeTimeout :: int
  opDone :: "string \<rightharpoonup> nat"
  ops :: "operation list"
  disp :: disp_pc
  writer :: writer_pc
  ctx_done :: bool
  closes :: nat
  calls :: "call list"
  handed :: "(thread \<times> operationMessage) list"
  wire :: "operationMessage list"

text \<open>
  \<open>opDone\<close> maps an id to the number of the operation whose \<^verbatim>\<open>cancel\<close> it holds;
  \<open>ctx_done\<close> says that the connection's context is cancelled; \<open>closes\<close> counts the calls of
  \<^verbatim>\<open>ws.Close()\<close>; \<open>calls\<close> lists the calls of the service; \<open>handed\<close> lists the messages the
  writer received from the channel \<^verbatim>\<open>out\<close>, with their senders; \<open>wire\<close> lists the messages
  that \<^verbatim>\<open>WriteJSON\<close> wrote.
\<close>

subsection \<open>Connect (lines 76--112)\<close>

datatype conn_option = ReadLimit int | WriteTimeout int

fun apply_option :: "config \<Rightarrow> conn_option \<Rightarrow> config" where
  "apply_option c (ReadLimit limit) = c\<lparr>readLimit := limit\<rparr>"
| "apply_option c (WriteTimeout d) = c\<lparr>writeTimeout := d\<rparr>"

definition defaultOpts :: "conn_option list" where
  "defaultOpts = [ReadLimit 4096, WriteTimeout 1000000000]"

text \<open>
  The state in which \<^verbatim>\<open>readLoop\<close> starts: the options applied in order, the writer started,
  the table empty.
\<close>

definition Connect :: "conn_option list \<Rightarrow> config" where
  "Connect options =
     foldl apply_option
       \<lparr>readLimit = 0, writeTimeout = 0, opDone = Map.empty, ops = [], disp = Running [],
        writer = WSelect, ctx_done = False, closes = 0, calls = [], handed = [], wire = []\<rparr>
       (defaultOpts @ options)"

subsection \<open>close (lines 156--159)\<close>

definition close :: "config \<Rightarrow> config" where
  "close c = c\<lparr>ctx_done := True, closes := Suc (closes c)\<rparr>"

subsection \<open>The body of readLoop for one message (lines 172--275)\<close>

definition sends :: "operationMessage list \<Rightarrow> config \<Rightarrow> config" where
  "sends fs c = c\<lparr>disp := Running fs\<rparr>"

definition cancel_op :: "nat \<Rightarrow> config \<Rightarrow> config" where
  "cancel_op k c =
     (if k < length (ops c) then c\<lparr>ops := (ops c)[k := (ops c ! k)\<lparr>op_cancelled := True\<rparr>]\<rparr>
      else c)"

definition receiveQuery :: "string \<Rightarrow> string" where
  "receiveQuery i = ''mutation {receive_socket_event(id:'' @ i @ '')}''"

text \<open>\<^verbatim>\<open>case typeConnectionInit\<close> (lines 173--180).\<close>

definition handleInit :: "('v, 'r) services \<Rightarrow> operationMessage \<Rightarrow> config \<Rightarrow> config" where
  "handleInit sv msg c =
     (case unmarshalInit sv (Payload msg) of
        Some _ \<Rightarrow>
          sends [frame '''' typeConnectionError
                   (errPayload (''invalid payload for type: '' @ Type msg))] c
      | None \<Rightarrow> sends [frame '''' typeConnectionAck []] c)"

text \<open>
  \<^verbatim>\<open>case typeStart\<close> (lines 182--235). The new scope gets the next free number; when
  \<^verbatim>\<open>Subscribe\<close> fails it is cancelled at once and no goroutine is started.
\<close>

definition subscribeFailed :: "string \<Rightarrow> string \<Rightarrow> config \<Rightarrow> config" where
  "subscribeFailed i err c =
     sends [frame i typeError (errPayload err), frame i typeComplete []]
       (c\<lparr>ops := ops c @ [\<lparr>op_id = i, op_cancelled = True, op_pc = NoGoroutine\<rparr>]\<rparr>)"

definition subscribed :: "string \<Rightarrow> config \<Rightarrow> config" where
  "subscribed i c =
     sends []
       (c\<lparr>ops := ops c @ [\<lparr>op_id = i, op_cancelled = False, op_pc = AtSelect\<rparr>],
          opDone := (opDone c)(i \<mapsto> length (ops c))\<rparr>)"

definition called :: "call \<Rightarrow> config \<Rightarrow> config" where
  "called k c = c\<lparr>calls := calls c @ [k]\<rparr>"

definition handleStart :: "('v, 'r) services \<Rightarrow> operationMessage \<Rightarrow> config \<Rightarrow> config" where
  "handleStart sv msg c =
     (if ID msg = '''' then
        sends [frame '''' typeConnectionError
                 (errPayload ''missing ID for start operation'')] c
      else
        (case unmarshalStart sv (Payload msg) of
           Inl _ \<Rightarrow>
             sends [frame (ID msg) typeConnectionError
                      (errPayload (''invalid payload for type: '' @ Type msg))] c
         | Inr osp \<Rightarrow>
             (case Subscribe sv (length (ops c)) (Query osp) (OperationName osp) (Variables osp) of
                Some err \<Rightarrow>
                  subscribeFailed (ID msg) err
                    (called (SubscribeCall (length (ops c)) (Query osp) (OperationName osp)
                               (Variables osp)) c)
              | None \<Rightarrow>
                  subscribed (ID msg)
                    (called (SubscribeCall (length (ops c)) (Query osp) (OperationName osp)
                               (Variables osp)) c))))"

text \<open>\<^verbatim>\<open>case typeStop\<close> (lines 237--243).\<close>

definition handleStop :: "operationMessage \<Rightarrow> config \<Rightarrow> config" where
  "handleStop msg c =
     sends [frame (ID msg) typeComplete []]
       (case opDone c (ID msg) of
          Some k \<Rightarrow> cancel_op k (c\<lparr>opDone := (opDone c)(ID msg := None)\<rparr>)
        | None \<Rightarrow> c)"

text \<open>
  \<^verbatim>\<open>case typePing\<close> and \<^verbatim>\<open>case typeReceive\<close> (lines 245--267): \<^verbatim>\<open>Exec\<close> with the given
  query, then a \<^verbatim>\<open>pong\<close> without id, or an \<^verbatim>\<open>error\<close> with the id of the message.
\<close>

definition execReply :: "('v, 'r) services \<Rightarrow> operationMessage \<Rightarrow> string \<Rightarrow> config \<Rightarrow> config" where
  "execReply sv msg query c =
     (case marshalResponse sv (Exec sv query '''' []) of
        Inl err \<Rightarrow> sends [frame (ID msg) typeError (errPayload err)] (called (ExecCall query '''' []) c)
      | Inr responseJSON \<Rightarrow> sends [frame '''' typePong responseJSON] (called (ExecCall query '''' []) c))"

definition handlePing :: "('v, 'r) services \<Rightarrow> operationMessage \<Rightarrow> config \<Rightarrow> config" where
  "handlePing sv msg c = execReply sv msg ''{check_subscription}'' c"

definition handleReceive :: "('v, 'r) services \<Rightarrow> operationMessage \<Rightarrow> config \<Rightarrow> config" where
  "handleReceive sv msg c =
     (case unmarshalReceive sv (Payload msg) of
        Inl err \<Rightarrow> sends [frame (ID msg) typeError (errPayload err)] c
      | Inr rp \<Rightarrow> execReply sv msg (receiveQuery (rp_ID rp)) c)"

text \<open>\<^verbatim>\<open>default\<close> (lines 272--274).\<close>

definition handleUnknown :: "operationMessage \<Rightarrow> config \<Rightarrow> config" where
  "handleUnknown msg c =
     sends [frame (ID msg) typeError
              (errPayload (''unknown operation message of type: '' @ Type msg))] c"

text \<open>The \<^verbatim>\<open>switch\<close> of line 172; \<^verbatim>\<open>connection_terminate\<close> returns, and the deferred
  \<^verbatim>\<open>conn.close()\<close> runs.\<close>

definition handle :: "('v, 'r) services \<Rightarrow> operationMessage \<Rightarrow> config \<Rightarrow> config" where
  "handle sv msg c =
    (if Type msg = typeConnectionInit then handleInit sv msg c
     else if Type msg = typeStart then handleStart sv msg c
     else if Type msg = typeStop then handleStop msg c
     else if Type msg = typePing then handlePing sv msg c
     else if Type msg = typeReceive then handleReceive sv msg c
     else if Type msg = typeConnectionTerminate then close (c\<lparr>disp := Returned\<rparr>)
     else handleUnknown msg c)"

subsection \<open>The steps of the goroutines\<close>

datatype read_result = ReadError | ReadOK operationMessage

datatype write_result = DeadlineError | WriteError | WriteOK

text \<open>
  An event is one step of one goroutine, with what the environment decides in it: what
  \<^verbatim>\<open>ReadJSON\<close> returns, which ready case a \<^verbatim>\<open>select\<close> takes, what the upstream channel
  yields, whether the write succeeds. \<open>CancelRoot\<close> is the cancellation of the context from
  outside (the caller's context, or the function that \<^verbatim>\<open>Connect\<close> returns).

  The goroutines interleave at the points where they communicate. What the dispatcher does
  with one message, from the return of \<^verbatim>\<open>ReadJSON\<close> to its first \<^verbatim>\<open>send\<close>, is one step:
  it works on its own table, creates or cancels scopes and calls the service, which is
  taken to return. Every \<^verbatim>\<open>send\<close> is a step of its own, which can happen when the writer
  waits at its \<^verbatim>\<open>select\<close> (the message goes over the channel \<^verbatim>\<open>out\<close>) or when \<^verbatim>\<open>stop\<close> is
  closed (the message is dropped). A \<^verbatim>\<open>select\<close> with several ready cases takes any of them:
  the writer may receive a message although the context is done, and a streaming goroutine
  may receive a value although its scope is cancelled.
\<close>

datatype 'v event =
    ReadJSON read_result
  | SendHandoff thread
  | SendStopped thread
  | WriterDone
  | WriterCheck
  | WriterWrite write_result
  | StreamDone nat
  | StreamValue nat 'v
  | StreamClosed nat
  | CancelRoot

text \<open>The message a goroutine is blocked on in \<^verbatim>\<open>send\<close> (lines 118--124), if any.\<close>

fun pending :: "thread \<Rightarrow> config \<Rightarrow> operationMessage option" where
  "pending Dispatcher c = (case disp c of Running (f # _) \<Rightarrow> Some f | _ \<Rightarrow> None)"
| "pending (Stream k) c =
     (if k < length (ops c)
      then (case op_pc (ops c ! k) of Sending f _ \<Rightarrow> Some f | _ \<Rightarrow> None)
      else None)"

definition set_pc :: "nat \<Rightarrow> stream_pc \<Rightarrow> config \<Rightarrow> config" where
  "set_pc k pc c = c\<lparr>ops := (ops c)[k := (ops c ! k)\<lparr>op_pc := pc\<rparr>]\<rparr>"

text \<open>
  The goroutine goes on after \<^verbatim>\<open>send\<close> has returned: the dispatcher to its next frame, a
  streaming goroutine back to its \<^verbatim>\<open>select\<close> or, after \<^verbatim>\<open>complete\<close>, to its return
  (whose deferred \<^verbatim>\<open>cancel()\<close> runs).
\<close>

fun returned_from_send :: "thread \<Rightarrow> config \<Rightarrow> config" where
  "returned_from_send Dispatcher c =
     (case disp c of Running (f # fs) \<Rightarrow> c\<lparr>disp := Running fs\<rparr> | _ \<Rightarrow> c)"
| "returned_from_send (Stream k) c =
     (case op_pc (ops c ! k) of
        Sending f Continue \<Rightarrow> set_pc k AtSelect c
      | Sending f Return \<Rightarrow> cancel_op k (set_pc k ExitClosed c)
      | _ \<Rightarrow> c)"

text \<open>The writer returns: \<^verbatim>\<open>conn.close()\<close>, then \<^verbatim>\<open>close(stop)\<close> (lines 127--128).\<close>

definition writer_return :: "config \<Rightarrow> config" where
  "writer_return c = close (c\<lparr>writer := WReturned\<rparr>)"

definition at_select :: "nat \<Rightarrow> config \<Rightarrow> bool" where
  "at_select k c = (k < length (ops c) \<and> op_pc (ops c ! k) = AtSelect)"

fun step :: "('v, 'r) services \<Rightarrow> 'v event \<Rightarrow> config \<Rightarrow> config option" where
  "step sv (ReadJSON r) c =
     (if disp c = Running [] then
        (case r of
           ReadError \<Rightarrow> Some (close (c\<lparr>disp := Returned\<rparr>))
         | ReadOK msg \<Rightarrow> Some (handle sv msg c))
      else None)"
| "step sv (SendHandoff t) c =
     (case pending t c of
        Some f \<Rightarrow>
          if writer c = WSelect
          then Some (returned_from_send t (c\<lparr>writer := WCheck f, handed := handed c @ [(t, f)]\<rparr>))
          else None
      | None \<Rightarrow> None)"
| "step sv (SendStopped t) c =
     (case pending t c of
        Some f \<Rightarrow> if writer c = WReturned then Some (returned_from_send t c) else None
      | None \<Rightarrow> None)"
| "step sv WriterDone c =
     (if writer c = WSelect \<and> ctx_done c then Some (writer_return c) else None)"
| "step sv WriterCheck c =
     (case writer c of
        WCheck f \<Rightarrow> Some (if ctx_done c then writer_return c else c\<lparr>writer := WWrite f\<rparr>)
      | _ \<Rightarrow> None)"
| "step sv (WriterWrite r) c =
     (case writer c of
        WWrite f \<Rightarrow>
          Some (case r of
                  DeadlineError \<Rightarrow> writer_return c
                | WriteError \<Rightarrow> writer_return c
                | WriteOK \<Rightarrow> c\<lparr>wire := wire c @ [f], writer := WSelect\<rparr>)
      | _ \<Rightarrow> None)"
| "step sv (StreamDone k) c =
     (if at_select k c \<and> (op_cancelled (ops c ! k) \<or> ctx_done c)
      then Some (cancel_op k (set_pc k ExitCancelled c))
      else None)"
| "step sv (StreamValue k v) c =
     (if at_select k c then
        Some (case marshalValue sv v of
                Inl err \<Rightarrow>
                  set_pc k (Sending (frame (op_id (ops c ! k)) typeError (errPayload err)) Continue) c
              | Inr jsonPayload \<Rightarrow>
                  set_pc k (Sending (frame (op_id (ops c ! k)) typeData jsonPayload) Continue) c)
      else None)"
| "step sv (StreamClosed k) c =
     (if at_select k c
      then Some (set_pc k (Sending (frame (op_id (ops c ! k)) typeComplete []) Return) c)
      else None)"
| "step sv CancelRoot c = Some (c\<lparr>ctx_done := True\<rparr>)"

text \<open>A run: the events in order; \<open>None\<close> when one of them cannot happen where it stands.\<close>

fun run :: "('v, 'r) services \<Rightarrow> 'v event list \<Rightarrow> config \<Rightarrow> config option" where
  "run sv [] c = Some c"
| "run sv (e # es) c = (case step sv e c of None \<Rightarrow> None | Some c' \<Rightarrow> run sv es c')"

section \<open>A concrete service and concrete messages\<close>

text \<open>
  The examples below run the connection against this service: every payload decodes (a
  \<^verbatim>\<open>start\<close> payload is taken as the query, a \<^verbatim>\<open>receive\<close> payload as the id),
  \<^verbatim>\<open>Subscribe\<close> fails on the query \<open>bad\<close> only, \<^verbatim>\<open>Exec\<close> answers with its query, and an
  upstream value is what \<^verbatim>\<open>json.Marshal\<close> makes of it.
\<close>

definition demo :: "(string + rawMessage, string) services" where
  "demo =
     \<lparr>unmarshalInit = (\<lambda>p. None),
      unmarshalStart = (\<lambda>p. Inr \<lparr>OperationName = '''', Query = p, Variables = []\<rparr>),
      unmarshalReceive = (\<lambda>p. Inr \<lparr>rp_ID = p\<rparr>),
      Subscribe = (\<lambda>k q n v. if q = ''bad'' then Some ''no such field'' else None),
      Exec = (\<lambda>q n v. q),
      marshalValue = (\<lambda>v. v),
      marshalResponse = (\<lambda>r. Inr r)\<rparr>"

definition message :: "string \<Rightarrow> operationMessageType \<Rightarrow> rawMessage \<Rightarrow> operationMessage" where
  "message i t p = \<lparr>ID = i, Payload = p, Type = t\<rparr>"

section \<open>Notions used in the statements\<close>

fun is_read :: "'v event \<Rightarrow> bool" where
  "is_read (ReadJSON r) = True"
| "is_read e = False"

text \<open>The frames that streaming goroutine \<open>k\<close> has handed to the writer, in order.\<close>

definition sent_by :: "nat \<Rightarrow> config \<Rightarrow> operationMessage list" where
  "sent_by k c = map snd (filter (\<lambda>p. fst p = Stream k) (handed c))"

text \<open>
  Those of them that have been written to the transport: the writer writes what it
  receives in order, so that they are among the first \<open>length (wire c)\<close> it received.
\<close>

definition written_by :: "nat \<Rightarrow> config \<Rightarrow> operationMessage list" where
  "written_by k c =
     map snd (filter (\<lambda>p. fst p = Stream k) (take (length (wire c)) (handed c)))"

text \<open>A \<^verbatim>\<open>data\<close> or \<^verbatim>\<open>error\<close> frame of the operation with id \<open>i\<close>.\<close>

definition body_frame :: "string \<Rightarrow> operationMessage \<Rightarrow> bool" where
  "body_frame i f = (ID f = i \<and> (Type f = typeData \<or> Type f = typeError))"

section \<open>Invariants of a connection\<close>

text \<open>
  \<^verbatim>\<open>ws.Close()\<close> is called once by each of the two loops when it returns, and the context is
  cancelled as soon as one of them has.
\<close>

definition teardown_inv :: "config \<Rightarrow> bool" where
  "teardown_inv c =
     (closes c = (if disp c = Returned then 1 else 0) + (if writer c = WReturned then 1 else 0)
      \<and> (disp c = Returned \<or> writer c = WReturned \<longrightarrow> ctx_done c))"

text \<open>The table holds numbers of existing scopes, each under one id at most.\<close>

definition table_inv :: "config \<Rightarrow> bool" where
  "table_inv c =
     (\<forall>i k. opDone c i = Some k \<longrightarrow> k < length (ops c) \<and> (\<forall>j. opDone c j = Some k \<longrightarrow> j = i))"

text \<open>What is written is what the writer received, short of the message it holds.\<close>

definition wire_inv :: "config \<Rightarrow> bool" where
  "wire_inv c =
     (case writer c of
        WSelect \<Rightarrow> map snd (handed c) = wire c
      | WCheck f \<Rightarrow> map snd (handed c) = wire c @ [f]
      | WWrite f \<Rightarrow> map snd (handed c) = wire c @ [f]
      | WReturned \<Rightarrow> map snd (handed c) = wire c \<or> (\<exists>f. map snd (handed c) = wire c @ [f]))"

text \<open>
  What a streaming goroutine with id \<open>i\<close> has handed over, by where it stands; \<open>w\<close> says
  that the writer has returned.
\<close>

fun shape_ok :: "stream_pc \<Rightarrow> string \<Rightarrow> operationMessage list \<Rightarrow> bool \<Rightarrow> bool" where
  "shape_ok NoGoroutine i fs w = (fs = [])"
| "shape_ok AtSelect i fs w = list_all (body_frame i) fs"
| "shape_ok (Sending f Continue) i fs w = (list_all (body_frame i) fs \<and> body_frame i f)"
| "shape_ok (Sending f Return) i fs w = (list_all (body_frame i) fs \<and> f = frame i typeComplete [])"
| "shape_ok ExitCancelled i fs w = list_all (body_frame i) fs"
| "shape_ok ExitClosed i fs w =
     ((w \<and> list_all (body_frame i) fs)
      \<or> (fs \<noteq> [] \<and> last fs = frame i typeComplete [] \<and> list_all (body_frame i) (butlast fs)))"

definition stream_inv :: "config \<Rightarrow> bool" where
  "stream_inv c =
     (\<forall>k. if k < length (ops c)
          then shape_ok (op_pc (ops c ! k)) (op_id (ops c ! k)) (sent_by k c) (writer c = WReturned)
          else sent_by k c = [])"

text \<open>The types of the frames written to the transport with id \<open>i\<close>, in order.\<close>

definition wire_types :: "string \<Rightarrow> config \<Rightarrow> operationMessageType list" where
  "wire_types i c = map Type (filter (\<lambda>f. ID f = i) (wire c))"

text \<open>
  The sequence that the specification promises for the frames of one operation: "zero or
  more \<^verbatim>\<open>data\<close> followed by exactly one \<^verbatim>\<open>complete\<close> OR exactly one \<^verbatim>\<open>error\<close> followed by
  one \<^verbatim>\<open>complete\<close>".
\<close>

definition spec_sequence :: "operationMessageType list \<Rightarrow> bool" where
  "spec_sequence ts =
     ((ts \<noteq> [] \<and> list_all (\<lambda>t. t = typeData) (butlast ts) \<and> last ts = typeComplete)
      \<or> ts = [typeError, typeComplete])"

text \<open>
  What the specification promises after a \<^verbatim>\<open>stop\<close>: among the frames with the id,
  exactly one \<^verbatim>\<open>complete\<close>, and no \<^verbatim>\<open>data\<close> after it.
\<close>

definition spec_after_stop :: "operationMessageType list \<Rightarrow> bool" where
  "spec_after_stop ts =
     (length (filter (\<lambda>t. t = typeComplete) ts) = 1
      \<and> typeData \<notin> set (dropWhile (\<lambda>t. t \<noteq> typeComplete) ts))"

section \<open>Concrete runs\<close>

text \<open>
  One operation whose upstream yields a value that encodes, one that does not, and then
  closes; every frame is written before the next step.
\<close>

definition mixed_run :: "(string + rawMessage) event list" where
  "mixed_run =
     [ReadJSON (ReadOK (message ''1'' ''start'' ''Q1'')),
      StreamValue 0 (Inr ''A''), SendHandoff (Stream 0), WriterCheck, WriterWrite WriteOK,
      StreamValue 0 (Inl ''unsupported type''), SendHandoff (Stream 0), WriterCheck,
      WriterWrite WriteOK,
      StreamClosed 0, SendHandoff (Stream 0), WriterCheck, WriterWrite WriteOK]"

text \<open>
  Two operations are active when \<^verbatim>\<open>ReadJSON\<close> fails; the dispatcher returns, then the
  writer finds the context done and returns, then the two streaming goroutines do.
\<close>

definition read_error_run :: "(string + rawMessage) event list" where
  "read_error_run =
     [ReadJSON (ReadOK (message ''1'' ''start'' ''Q1'')),
      ReadJSON (ReadOK (message ''2'' ''start'' ''Q2'')),
      ReadJSON ReadError, WriterDone, StreamDone 0, StreamDone 1]"

text \<open>
  One operation, stopped; the \<^verbatim>\<open>complete\<close> of the \<^verbatim>\<open>stop\<close> is written; then the
  goroutine's \<^verbatim>\<open>select\<close>, for which both the cancellation and a value of the upstream
  channel are ready, takes the value, and the goroutine sends it as \<^verbatim>\<open>data\<close>; at the next
  turn it takes the cancellation and returns.
\<close>

definition late_value_run :: "(string + rawMessage) event list" where
  "late_value_run =
     [ReadJSON (ReadOK (message ''1'' ''start'' ''Q1'')),
      ReadJSON (ReadOK (message ''1'' ''stop'' [])),
      SendHandoff Dispatcher, WriterCheck, WriterWrite WriteOK,
      StreamValue 0 (Inr ''A''), SendHandoff (Stream 0), WriterCheck, WriterWrite WriteOK,
      StreamDone 0]"

text \<open>
  Two operations started under the same id, then a \<^verbatim>\<open>stop\<close> for it, which cancels the
  second; the first goes on and sends a value.
\<close>

definition replaced_run :: "(string + rawMessage) event list" where
  "replaced_run =
     [ReadJSON (ReadOK (message ''1'' ''start'' ''Q1'')),
      ReadJSON (ReadOK (message ''1'' ''start'' ''Q2'')),
      ReadJSON (ReadOK (message ''1'' ''stop'' [])),
      SendHandoff Dispatcher, WriterCheck, WriterWrite WriteOK,
      StreamDone 1,
      StreamValue 0 (Inr ''A''), SendHandoff (Stream 0), WriterCheck, WriterWrite WriteOK]"

section \<open>The JSON value of an error payload\<close>

text \<open>
  A reader for the JSON text of an object with the single member \<^verbatim>\<open>"message"\<close> whose
  value is a string, after the grammar of RFC 8259: \<open>jsonUnquote\<close> reads the characters of
  a string after its opening quote, up to the closing quote that ends the text, and returns
  the string they denote, in UTF-8. A character is an escape, or a character from U+0020 on
  other than the quote and the backslash, in UTF-8. A text that is not of this form has no
  value. Escapes of surrogates, which take two \<^verbatim>\<open>\u\<close> escapes for one character, are not
  read.
\<close>

definition hexDigit :: "char \<Rightarrow> bool" where
  "hexDigit h = (h \<in> set ''0123456789abcdefABCDEF'')"

definition hexValue :: "char \<Rightarrow> nat" where
  "hexValue h =
     (if 48 \<le> byte h \<and> byte h \<le> 57 then byte h - 48
      else if 97 \<le> byte h \<and> byte h \<le> 102 then byte h - 87
      else byte h - 55)"

text \<open>The UTF-8 encoding of a code point below \<open>0x10000\<close>.\<close>

definition utf8Bytes :: "nat \<Rightarrow> string" where
  "utf8Bytes n =
     (if n < 0x80 then [char_of n]
      else if n < 0x800 then [char_of (0xC0 + n div 64), char_of (0x80 + n mod 64)]
      else [char_of (0xE0 + n div 4096), char_of (0x80 + n div 64 mod 64),
            char_of (0x80 + n mod 64)])"

function jsonUnquote :: "string \<Rightarrow> string option" where
  "jsonUnquote [] = None"
| "jsonUnquote (b # bs) =
     (if b = dquote then (if bs = [] then Some [] else None)
      else if b = bslash then
        (case bs of
           [] \<Rightarrow> None
         | e # r \<Rightarrow>
             if e = dquote \<or> e = bslash \<or> e = CHR ''/'' then map_option ((#) e) (jsonUnquote r)
             else if e = CHR ''b'' then map_option ((#) (CHR 0x08)) (jsonUnquote r)
             else if e = CHR ''f'' then map_option ((#) (CHR 0x0C)) (jsonUnquote r)
             else if e = CHR ''n'' then map_option ((#) (CHR 0x0A)) (jsonUnquote r)
             else if e = CHR ''r'' then map_option ((#) (CHR 0x0D)) (jsonUnquote r)
             else if e = CHR ''t'' then map_option ((#) (CHR 0x09)) (jsonUnquote r)
             else if e = CHR ''u'' then
               (case r of
                  h1 # h2 # h3 # h4 # r' \<Rightarrow>
                    if hexDigit h1 \<and> hexDigit h2 \<and> hexDigit h3 \<and> hexDigit h4
                       \<and> \<not> (0xD8 \<le> 16 * hexValue h1 + hexValue h2
                            \<and> 16 * hexValue h1 + hexValue h2 \<le> 0xDF)
                    then map_option
                           ((@) (utf8Bytes (4096 * hexValue h1 + 256 * hexValue h2
                                            + 16 * hexValue h3 + hexValue h4)))
                           (jsonUnquote r')
                    else None
                | _ \<Rightarrow> None)
             else None)
      else if byte b < 0x20 then None
      else if byte b < 0x80 then map_option ((#) b) (jsonUnquote bs)
      else if runeWidth (b # bs) = 0 then None
      else map_option ((@) (take (runeWidth (b # bs)) (b # bs)))
             (jsonUnquote (drop (runeWidth (b # bs) - 1) bs)))"
  by pat_completeness auto
termination
  by (relation "measure length") (simp_all del: runeWidth.simps)

text \<open>
  The value of the member \<^verbatim>\<open>message\<close> of the object that a text denotes, when the text
  is such an object in the compact form that \<^verbatim>\<open>json.Marshal\<close> writes.
\<close>

definition messageOf :: "rawMessage \<Rightarrow> string option" where
  \<open>messageOf s =
     (if take 12 s = ''{"message":"'' \<and> s \<noteq> [] \<and> last s = CHR ''}''
      then jsonUnquote (butlast (drop 12 s)) else None)\<close>

text \<open>
  A byte string is valid UTF-8 when it is a sequence of ASCII bytes and encoded runes;
  \<open>toValidUTF8\<close> puts U+FFFD in the place of every byte that is not part of one (what
  \<^verbatim>\<open>encoding/json\<close> documents as the coercion of a string to valid UTF-8).
\<close>

function validUTF8 :: "string \<Rightarrow> bool" where
  "validUTF8 [] = True"
| "validUTF8 (b # bs) =
     (if byte b < 0x80 then validUTF8 bs
      else runeWidth (b # bs) \<noteq> 0 \<and> validUTF8 (drop (runeWidth (b # bs) - 1) bs))"
  by pat_completeness auto
termination
  by (relation "measure length") (simp_all del: runeWidth.simps)

function toValidUTF8 :: "string \<Rightarrow> string" where
  "toValidUTF8 [] = []"
| "toValidUTF8 (b # bs) =
     (if byte b < 0x80 then b # toValidUTF8 bs
      else if runeWidth (b # bs) = 0 then replacement @ toValidUTF8 bs
      else take (runeWidth (b # bs)) (b # bs) @ toValidUTF8 (drop (runeWidth (b # bs) - 1) bs))"
  by pat_completeness auto
termination
  by (relation "measure length") (simp_all del: runeWidth.simps)

section \<open>The errors that arise on a connection\<close>

text \<open>
  The nine places at which the code passes \<^verbatim>\<open>errPayload(...)\<close> to \<^verbatim>\<open>send\<close>, each with the
  error it passes, the id and the type: the text of the error, the first and the second
  argument of \<^verbatim>\<open>send\<close>. Eight are in the dispatcher, by the type of the message it has
  read:

  \<^item> \<^verbatim>\<open>connection_init\<close> whose payload does not decode: a new error
    \<^verbatim>\<open>fmt.Errorf("invalid payload for type: %s", msg.Type)\<close>, no id (lines 175--177);
  \<^item> \<^verbatim>\<open>start\<close> without id: \<^verbatim>\<open>errors.New("missing ID for start operation")\<close>, no id
    (lines 184--186);
  \<^item> \<^verbatim>\<open>start\<close> whose payload does not decode: the same new error as for
    \<^verbatim>\<open>connection_init\<close>, with the id of the message (lines 191--193);
  \<^item> \<^verbatim>\<open>start\<close> whose \<^verbatim>\<open>Subscribe\<close> fails: the error of \<^verbatim>\<open>Subscribe\<close> (lines 205--208);
  \<^item> \<^verbatim>\<open>ping\<close> whose response does not encode: the error of \<^verbatim>\<open>json.Marshal\<close>
    (lines 247--249);
  \<^item> \<^verbatim>\<open>receive\<close> whose payload does not decode: the error of \<^verbatim>\<open>json.Unmarshal\<close>
    (lines 256--257);
  \<^item> \<^verbatim>\<open>receive\<close> whose response does not encode: the error of \<^verbatim>\<open>json.Marshal\<close>
    (lines 262--264);
  \<^item> a message of a type other than the six cases of the \<^verbatim>\<open>switch\<close>: a new error
    \<^verbatim>\<open>fmt.Errorf("unknown operation message of type: %s", msg.Type)\<close> (lines 272--274).

  The ninth is in the streaming goroutine: the error of \<^verbatim>\<open>json.Marshal\<close> on a value of
  the upstream channel, with the id of the operation (lines 227--229).
\<close>

type_synonym raised = "string \<times> string \<times> operationMessageType"

definition errorsOfMessage ::
  "('v, 'r) services \<Rightarrow> operationMessage \<Rightarrow> config \<Rightarrow> raised list" where
  "errorsOfMessage sv msg c =
     (if Type msg = typeConnectionInit then
        (case unmarshalInit sv (Payload msg) of
           Some _ \<Rightarrow> [(''invalid payload for type: '' @ Type msg, '''', typeConnectionError)]
         | None \<Rightarrow> [])
      else if Type msg = typeStart then
        (if ID msg = '''' then [(''missing ID for start operation'', '''', typeConnectionError)]
         else
           (case unmarshalStart sv (Payload msg) of
              Inl _ \<Rightarrow> [(''invalid payload for type: '' @ Type msg, ID msg, typeConnectionError)]
            | Inr osp \<Rightarrow>
                (case Subscribe sv (length (ops c)) (Query osp) (OperationName osp)
                        (Variables osp) of
                   Some err \<Rightarrow> [(err, ID msg, typeError)]
                 | None \<Rightarrow> [])))
      else if Type msg = typeStop then []
      else if Type msg = typePing then
        (case marshalResponse sv (Exec sv ''{check_subscription}'' '''' []) of
           Inl err \<Rightarrow> [(err, ID msg, typeError)]
         | Inr _ \<Rightarrow> [])
      else if Type msg = typeReceive then
        (case unmarshalReceive sv (Payload msg) of
           Inl err \<Rightarrow> [(err, ID msg, typeError)]
         | Inr rp \<Rightarrow>
             (case marshalResponse sv (Exec sv (receiveQuery (rp_ID rp)) '''' []) of
                Inl err \<Rightarrow> [(err, ID msg, typeError)]
              | Inr _ \<Rightarrow> []))
      else if Type msg = typeConnectionTerminate then []
      else [(''unknown operation message of type: '' @ Type msg, ID msg, typeError)])"

text \<open>The errors that arise in one step that happens, and in the steps of a run.\<close>

fun errorsOfStep :: "('v, 'r) services \<Rightarrow> 'v event \<Rightarrow> config \<Rightarrow> raised list" where
  "errorsOfStep sv (ReadJSON (ReadOK msg)) c = errorsOfMessage sv msg c"
| "errorsOfStep sv (StreamValue k v) c =
     (case marshalValue sv v of
        Inl err \<Rightarrow> [(err, op_id (ops c ! k), typeError)]
      | Inr _ \<Rightarrow> [])"
| "errorsOfStep sv e c = []"

fun errorsOfRun :: "('v, 'r) services \<Rightarrow> 'v event list \<Rightarrow> config \<Rightarrow> raised list" where
  "errorsOfRun sv [] c = []"
| "errorsOfRun sv (e # es) c =
     (case step sv e c of
        None \<Rightarrow> []
      | Some c' \<Rightarrow> errorsOfStep sv e c @ errorsOfRun sv es c')"

text \<open>The frame that \<^verbatim>\<open>send(id, omType, errPayload(err))\<close> makes of an error.\<close>

fun errorFrame :: "raised \<Rightarrow> operationMessage" where
  "errorFrame (m, i, t) = frame i t (errPayload m)"

text \<open>
  The frames of the two error types, and the frames a state holds: those the dispatcher
  has still to send, those the streaming goroutines are sending, the one the writer holds,
  those handed over and those written. In a state that is \<open>tracked\<close> by a set of frames,
  every error frame it holds is in the set.
\<close>

definition error_frame :: "operationMessage \<Rightarrow> bool" where
  "error_frame f = (Type f = typeError \<or> Type f = typeConnectionError)"

definition known :: "operationMessage set \<Rightarrow> operationMessage \<Rightarrow> bool" where
  "known G f = (error_frame f \<longrightarrow> f \<in> G)"

fun disp_frames :: "disp_pc \<Rightarrow> operationMessage list" where
  "disp_frames (Running fs) = fs"
| "disp_frames Returned = []"

fun writer_frames :: "writer_pc \<Rightarrow> operationMessage list" where
  "writer_frames (WCheck f) = [f]"
| "writer_frames (WWrite f) = [f]"
| "writer_frames p = []"

definition tracked :: "operationMessage set \<Rightarrow> config \<Rightarrow> bool" where
  "tracked G c =
     ((\<forall>f \<in> set (disp_frames (disp c)). known G f)
      \<and> (\<forall>k f a. k < length (ops c) \<longrightarrow> op_pc (ops c ! k) = Sending f a \<longrightarrow> known G f)
      \<and> (\<forall>f \<in> set (writer_frames (writer c)). known G f)
      \<and> (\<forall>f \<in> snd ` set (handed c). known G f)
      \<and> (\<forall>f \<in> set (wire c). known G f))"

text \<open>
  A service whose \<^verbatim>\<open>Subscribe\<close> fails with an error whose text is the single byte
  \<open>0xFF\<close>, which is not valid UTF-8 (as \<^verbatim>\<open>errors.New("\xff")\<close>, or an error that quotes
  such a byte of a query).
\<close>

definition garbled :: "(string + rawMessage, string) services" where
  "garbled = demo\<lparr>Subscribe := (\<lambda>k q n v. Some [CHR 0xFF])\<rparr>"

lemmas type_defs =
  typeComplete_def typeConnectionAck_def typeConnectionError_def typeConnectionInit_def
  typeConnectionKeepAlive_def typeConnectionTerminate_def typeData_def typeError_def
  typeStart_def typeStop_def typePing_def typeReceive_def typePong_def

section \<open>What each part of a step changes\<close>

lemma set_pc_fields [simp]:
  "opDone (set_pc k p c) = opDone c" "disp (set_pc k p c) = disp c"
  "writer (set_pc k p c) = writer c" "ctx_done (set_pc k p c) = ctx_done c"
  "closes (set_pc k p c) = closes c" "calls (set_pc k p c) = calls c"
  "handed (set_pc k p c) = handed c" "wire (set_pc k p c) = wire c"
  "length (ops (set_pc k p c)) = length (ops c)"
  by (simp_all add: set_pc_def)

lemma cancel_op_fields [simp]:
  "opDone (cancel_op k c) = opDone c" "disp (cancel_op k c) = disp c"
  "writer (cancel_op k c) = writer c" "ctx_done (cancel_op k c) = ctx_done c"
  "closes (cancel_op k c) = closes c" "calls (cancel_op k c) = calls c"
  "handed (cancel_op k c) = handed c" "wire (cancel_op k c) = wire c"
  "length (ops (cancel_op k c)) = length (ops c)"
  by (simp_all add: cancel_op_def)

lemma close_fields [simp]:
  "opDone (close c) = opDone c" "disp (close c) = disp c"
  "writer (close c) = writer c" "ctx_done (close c) = True"
  "closes (close c) = Suc (closes c)" "calls (close c) = calls c"
  "handed (close c) = handed c" "wire (close c) = wire c"
  "ops (close c) = ops c"
  by (simp_all add: close_def)

lemma writer_return_fields [simp]:
  "opDone (writer_return c) = opDone c" "disp (writer_return c) = disp c"
  "writer (writer_return c) = WReturned" "ctx_done (writer_return c) = True"
  "closes (writer_return c) = Suc (closes c)" "calls (writer_return c) = calls c"
  "handed (writer_return c) = handed c" "wire (writer_return c) = wire c"
  "ops (writer_return c) = ops c"
  by (simp_all add: writer_return_def)

lemma sends_fields [simp]:
  "opDone (sends fs c) = opDone c" "disp (sends fs c) = Running fs"
  "writer (sends fs c) = writer c" "ctx_done (sends fs c) = ctx_done c"
  "closes (sends fs c) = closes c" "calls (sends fs c) = calls c"
  "handed (sends fs c) = handed c" "wire (sends fs c) = wire c"
  "ops (sends fs c) = ops c"
  by (simp_all add: sends_def)

lemma returned_from_send_fields [simp]:
  "opDone (returned_from_send t c) = opDone c"
  "writer (returned_from_send t c) = writer c" "ctx_done (returned_from_send t c) = ctx_done c"
  "closes (returned_from_send t c) = closes c" "calls (returned_from_send t c) = calls c"
  "handed (returned_from_send t c) = handed c" "wire (returned_from_send t c) = wire c"
  "length (ops (returned_from_send t c)) = length (ops c)"
  by (cases t; simp split: disp_pc.splits list.splits stream_pc.splits after_send.splits; fail)+

lemma returned_from_send_disp:
  "(disp (returned_from_send t c) = Returned) = (disp c = Returned)"
  by (cases t; simp split: disp_pc.splits list.splits stream_pc.splits after_send.splits)

lemma returned_from_send_Dispatcher:
  "ops (returned_from_send Dispatcher c) = ops c"
  "disp (returned_from_send Dispatcher c) =
     (case disp c of Running (f # fs) \<Rightarrow> Running fs | d \<Rightarrow> d)"
  by (simp_all split: disp_pc.splits list.splits)

lemma ops_set_pc: "ops (set_pc k p c) = (ops c)[k := (ops c ! k)\<lparr>op_pc := p\<rparr>]"
  by (simp add: set_pc_def)

lemma ops_cancel_op:
  "ops (cancel_op k c) = (ops c)[k := (ops c ! k)\<lparr>op_cancelled := True\<rparr>]"
  by (simp add: cancel_op_def list_update_beyond)

lemma op_after_cancel [simp]:
  "op_pc (ops (cancel_op k c) ! j) = op_pc (ops c ! j)"
  "op_id (ops (cancel_op k c) ! j) = op_id (ops c ! j)"
  by (simp_all add: cancel_op_def nth_list_update)

lemma id_after_set_pc [simp]:
  "op_id (ops (set_pc k p c) ! j) = op_id (ops c ! j)"
  by (cases "k < length (ops c)") (simp_all add: set_pc_def nth_list_update list_update_beyond)

lemma pc_after_set_pc [simp]:
  "op_pc (ops (set_pc k p c) ! j) = (if j = k \<and> k < length (ops c) then p else op_pc (ops c ! j))"
  by (cases "k < length (ops c)") (simp_all add: set_pc_def nth_list_update list_update_beyond)

lemma returned_from_send_Stream:
  "disp (returned_from_send (Stream j) c) = disp c"
  "op_id (ops (returned_from_send (Stream j) c) ! k) = op_id (ops c ! k)"
  "op_pc (ops (returned_from_send (Stream j) c) ! k) =
     (if k = j \<and> j < length (ops c)
      then (case op_pc (ops c ! j) of
              Sending f Continue \<Rightarrow> AtSelect | Sending f Return \<Rightarrow> ExitClosed | p \<Rightarrow> p)
      else op_pc (ops c ! k))"
  by (simp_all split: stream_pc.splits after_send.splits)

declare returned_from_send.simps [simp del]

lemma called_fields [simp]:
  "opDone (called k c) = opDone c" "disp (called k c) = disp c"
  "writer (called k c) = writer c" "ctx_done (called k c) = ctx_done c"
  "closes (called k c) = closes c" "calls (called k c) = calls c @ [k]"
  "handed (called k c) = handed c" "wire (called k c) = wire c"
  "ops (called k c) = ops c"
  by (simp_all add: called_def)

lemma subscribeFailed_fields [simp]:
  "opDone (subscribeFailed i err c) = opDone c"
  "disp (subscribeFailed i err c) = Running [frame i typeError (errPayload err), frame i typeComplete []]"
  "writer (subscribeFailed i err c) = writer c" "ctx_done (subscribeFailed i err c) = ctx_done c"
  "closes (subscribeFailed i err c) = closes c" "calls (subscribeFailed i err c) = calls c"
  "handed (subscribeFailed i err c) = handed c" "wire (subscribeFailed i err c) = wire c"
  "ops (subscribeFailed i err c) = ops c @ [\<lparr>op_id = i, op_cancelled = True, op_pc = NoGoroutine\<rparr>]"
  by (simp_all add: subscribeFailed_def)

lemma subscribed_fields [simp]:
  "opDone (subscribed i c) = (opDone c)(i \<mapsto> length (ops c))"
  "disp (subscribed i c) = Running []"
  "writer (subscribed i c) = writer c" "ctx_done (subscribed i c) = ctx_done c"
  "closes (subscribed i c) = closes c" "calls (subscribed i c) = calls c"
  "handed (subscribed i c) = handed c" "wire (subscribed i c) = wire c"
  "ops (subscribed i c) = ops c @ [\<lparr>op_id = i, op_cancelled = False, op_pc = AtSelect\<rparr>]"
  by (simp_all add: subscribed_def)

lemma handleStop_fields [simp]:
  "opDone (handleStop msg c) = (opDone c)(ID msg := None)"
  "disp (handleStop msg c) = Running [frame (ID msg) typeComplete []]"
  "writer (handleStop msg c) = writer c" "ctx_done (handleStop msg c) = ctx_done c"
  "closes (handleStop msg c) = closes c" "calls (handleStop msg c) = calls c"
  "handed (handleStop msg c) = handed c" "wire (handleStop msg c) = wire c"
  "length (ops (handleStop msg c)) = length (ops c)"
  by (auto simp add: handleStop_def split: option.splits)

lemma execReply_fields [simp]:
  "opDone (execReply sv msg q c) = opDone c"
  "writer (execReply sv msg q c) = writer c" "ctx_done (execReply sv msg q c) = ctx_done c"
  "closes (execReply sv msg q c) = closes c" "calls (execReply sv msg q c) = calls c @ [ExecCall q '''' []]"
  "handed (execReply sv msg q c) = handed c" "wire (execReply sv msg q c) = wire c"
  "ops (execReply sv msg q c) = ops c"
  by (simp_all add: execReply_def split: sum.splits)

lemma handleInit_fields [simp]:
  "opDone (handleInit sv msg c) = opDone c"
  "writer (handleInit sv msg c) = writer c" "ctx_done (handleInit sv msg c) = ctx_done c"
  "closes (handleInit sv msg c) = closes c" "calls (handleInit sv msg c) = calls c"
  "handed (handleInit sv msg c) = handed c" "wire (handleInit sv msg c) = wire c"
  "ops (handleInit sv msg c) = ops c"
  by (simp_all add: handleInit_def split: option.splits)

lemma handleStart_fields [simp]:
  "writer (handleStart sv msg c) = writer c" "ctx_done (handleStart sv msg c) = ctx_done c"
  "closes (handleStart sv msg c) = closes c"
  "handed (handleStart sv msg c) = handed c" "wire (handleStart sv msg c) = wire c"
  by (simp_all add: handleStart_def split: option.splits sum.splits)

lemma handleReceive_fields [simp]:
  "opDone (handleReceive sv msg c) = opDone c"
  "writer (handleReceive sv msg c) = writer c" "ctx_done (handleReceive sv msg c) = ctx_done c"
  "closes (handleReceive sv msg c) = closes c"
  "handed (handleReceive sv msg c) = handed c" "wire (handleReceive sv msg c) = wire c"
  "ops (handleReceive sv msg c) = ops c"
  by (simp_all add: handleReceive_def split: sum.splits)

lemma handlePing_fields [simp]:
  "opDone (handlePing sv msg c) = opDone c"
  "writer (handlePing sv msg c) = writer c" "ctx_done (handlePing sv msg c) = ctx_done c"
  "closes (handlePing sv msg c) = closes c"
  "calls (handlePing sv msg c) = calls c @ [ExecCall ''{check_subscription}'' '''' []]"
  "handed (handlePing sv msg c) = handed c" "wire (handlePing sv msg c) = wire c"
  "ops (handlePing sv msg c) = ops c"
  by (simp_all add: handlePing_def)

lemma handleUnknown_fields [simp]:
  "opDone (handleUnknown msg c) = opDone c"
  "disp (handleUnknown msg c) = Running [frame (ID msg) typeError
      (errPayload (''unknown operation message of type: '' @ Type msg))]"
  "writer (handleUnknown msg c) = writer c" "ctx_done (handleUnknown msg c) = ctx_done c"
  "closes (handleUnknown msg c) = closes c" "calls (handleUnknown msg c) = calls c"
  "handed (handleUnknown msg c) = handed c" "wire (handleUnknown msg c) = wire c"
  "ops (handleUnknown msg c) = ops c"
  by (simp_all add: handleUnknown_def)

lemma handle_frame [simp]:
  "writer (handle sv msg c) = writer c" "handed (handle sv msg c) = handed c"
  "wire (handle sv msg c) = wire c"
  by (simp_all add: handle_def)

section \<open>The invariants hold in every run\<close>

lemma handlers_running:
  "disp (handleInit sv msg c) \<noteq> Returned" "disp (handleStart sv msg c) \<noteq> Returned"
  "disp (handleStop msg c) \<noteq> Returned" "disp (handlePing sv msg c) \<noteq> Returned"
  "disp (handleReceive sv msg c) \<noteq> Returned" "disp (handleUnknown msg c) \<noteq> Returned"
  by (simp_all add: handleInit_def handleStart_def handlePing_def handleReceive_def execReply_def
      split: option.splits sum.splits)

lemma handle_teardown:
  "(disp (handle sv msg c) = Returned \<and> closes (handle sv msg c) = Suc (closes c)
      \<and> ctx_done (handle sv msg c))
   \<or> (disp (handle sv msg c) \<noteq> Returned \<and> closes (handle sv msg c) = closes c
      \<and> ctx_done (handle sv msg c) = ctx_done c)"
  by (simp add: handle_def handlers_running)

lemma step_teardown:
  assumes "teardown_inv c" and "step sv e c = Some c'"
  shows "teardown_inv c'"
proof (cases e)
  case (ReadJSON r)
  show ?thesis
  proof (cases r)
    case ReadError
    then show ?thesis
      using assms ReadJSON by (auto simp add: teardown_inv_def split: if_splits)
  next
    case (ReadOK msg)
    then show ?thesis
      using assms ReadJSON handle_teardown [of sv msg c]
      by (auto simp add: teardown_inv_def split: if_splits)
  qed
next
  case (SendHandoff t)
  then show ?thesis
    using assms
    by (auto simp add: teardown_inv_def returned_from_send_disp split: option.splits if_splits)
next
  case (SendStopped t)
  then show ?thesis
    using assms
    by (auto simp add: teardown_inv_def returned_from_send_disp split: option.splits if_splits)
next
  case WriterDone
  then show ?thesis
    using assms by (auto simp add: teardown_inv_def split: if_splits)
next
  case WriterCheck
  then show ?thesis
    using assms by (auto simp add: teardown_inv_def split: if_splits writer_pc.splits)
next
  case (WriterWrite r)
  then show ?thesis
    using assms
    by (auto simp add: teardown_inv_def split: if_splits writer_pc.splits write_result.splits)
next
  case (StreamDone k)
  then show ?thesis
    using assms by (auto simp add: teardown_inv_def split: if_splits)
next
  case (StreamValue k v)
  then show ?thesis
    using assms by (auto simp add: teardown_inv_def split: if_splits sum.splits)
next
  case (StreamClosed k)
  then show ?thesis
    using assms by (auto simp add: teardown_inv_def split: if_splits)
next
  case CancelRoot
  then show ?thesis
    using assms by (auto simp add: teardown_inv_def split: if_splits)
qed

lemma Connect_fields:
  "opDone (Connect os) = Map.empty" "ops (Connect os) = []" "disp (Connect os) = Running []"
  "writer (Connect os) = WSelect" "ctx_done (Connect os) = False" "closes (Connect os) = 0"
  "calls (Connect os) = []" "handed (Connect os) = []" "wire (Connect os) = []"
proof -
  have "\<And>c. opDone (foldl apply_option c os) = opDone c \<and> ops (foldl apply_option c os) = ops c
    \<and> disp (foldl apply_option c os) = disp c \<and> writer (foldl apply_option c os) = writer c
    \<and> ctx_done (foldl apply_option c os) = ctx_done c \<and> closes (foldl apply_option c os) = closes c
    \<and> calls (foldl apply_option c os) = calls c \<and> handed (foldl apply_option c os) = handed c
    \<and> wire (foldl apply_option c os) = wire c"
  proof (induction os)
    case Nil
    then show ?case by simp
  next
    case (Cons a os)
    show ?case by (cases a) (simp_all add: Cons.IH)
  qed
  then show "opDone (Connect os) = Map.empty" "ops (Connect os) = []" "disp (Connect os) = Running []"
    "writer (Connect os) = WSelect" "ctx_done (Connect os) = False" "closes (Connect os) = 0"
    "calls (Connect os) = []" "handed (Connect os) = []" "wire (Connect os) = []"
    by (simp_all add: Connect_def defaultOpts_def)
qed

lemma run_invariant:
  assumes "\<And>c e c'. P c \<Longrightarrow> step sv e c = Some c' \<Longrightarrow> P c'"
    and "P c" and "run sv es c = Some c'"
  shows "P c'"
  using assms(2,3)
proof (induction es arbitrary: c)
  case Nil
  then show ?case by simp
next
  case (Cons e es)
  then show ?case
    by (cases "step sv e c") (auto intro: assms(1))
qed

lemma run_teardown:
  assumes "run sv es (Connect os) = Some c"
  shows "teardown_inv c"
  by (rule run_invariant [where P = teardown_inv, OF step_teardown _ assms])
     (simp_all add: teardown_inv_def Connect_fields)

lemma step_wire:
  assumes "wire_inv c" and "step sv e c = Some c'"
  shows "wire_inv c'"
proof (cases e)
  case (ReadJSON r)
  then show ?thesis
    using assms by (cases r) (auto simp add: wire_inv_def split: if_splits writer_pc.splits)
next
  case (SendHandoff t)
  then show ?thesis
    using assms by (auto simp add: wire_inv_def split: option.splits if_splits)
next
  case (SendStopped t)
  then show ?thesis
    using assms by (auto simp add: wire_inv_def split: option.splits if_splits)
next
  case WriterDone
  then show ?thesis
    using assms by (auto simp add: wire_inv_def split: if_splits)
next
  case WriterCheck
  then show ?thesis
    using assms by (auto simp add: wire_inv_def split: if_splits writer_pc.splits)
next
  case (WriterWrite r)
  then show ?thesis
    using assms
    by (auto simp add: wire_inv_def split: if_splits writer_pc.splits write_result.splits)
next
  case (StreamDone k)
  then show ?thesis
    using assms by (auto simp add: wire_inv_def split: if_splits writer_pc.splits)
next
  case (StreamValue k v)
  then show ?thesis
    using assms by (auto simp add: wire_inv_def split: if_splits sum.splits writer_pc.splits)
next
  case (StreamClosed k)
  then show ?thesis
    using assms by (auto simp add: wire_inv_def split: if_splits writer_pc.splits)
next
  case CancelRoot
  then show ?thesis
    using assms by (auto simp add: wire_inv_def split: if_splits writer_pc.splits)
qed

lemma run_wire:
  assumes "run sv es (Connect os) = Some c"
  shows "wire_inv c"
  by (rule run_invariant [where P = wire_inv, OF step_wire _ assms])
     (simp_all add: wire_inv_def Connect_fields)

lemma handleStart_table:
  assumes "table_inv c"
  shows "table_inv (handleStart sv msg c)"
  using assms
  by (auto simp add: table_inv_def handleStart_def less_Suc_eq split: option.splits sum.splits)

lemma handle_table:
  assumes "table_inv c"
  shows "table_inv (handle sv msg c)"
  using assms handleStart_table [OF assms, of sv msg]
  by (auto simp add: handle_def) (auto simp add: table_inv_def split: if_splits)

lemma step_table:
  assumes "table_inv c" and "step sv e c = Some c'"
  shows "table_inv c'"
proof (cases e)
  case (ReadJSON r)
  show ?thesis
  proof (cases r)
    case ReadError
    then show ?thesis
      using assms ReadJSON by (auto simp add: table_inv_def split: if_splits)
  next
    case (ReadOK msg)
    then show ?thesis
      using assms ReadJSON handle_table [OF assms(1), of sv msg] by (auto split: if_splits)
  qed
next
  case (SendHandoff t)
  then show ?thesis
    using assms by (auto simp add: table_inv_def split: option.splits if_splits)
next
  case (SendStopped t)
  then show ?thesis
    using assms by (auto simp add: table_inv_def split: option.splits if_splits)
next
  case WriterDone
  then show ?thesis
    using assms by (auto simp add: table_inv_def split: if_splits)
next
  case WriterCheck
  then show ?thesis
    using assms by (auto simp add: table_inv_def split: if_splits writer_pc.splits)
next
  case (WriterWrite r)
  then show ?thesis
    using assms
    by (auto simp add: table_inv_def split: if_splits writer_pc.splits write_result.splits)
next
  case (StreamDone k)
  then show ?thesis
    using assms by (auto simp add: table_inv_def split: if_splits)
next
  case (StreamValue k v)
  then show ?thesis
    using assms by (auto simp add: table_inv_def split: if_splits sum.splits)
next
  case (StreamClosed k)
  then show ?thesis
    using assms by (auto simp add: table_inv_def split: if_splits)
next
  case CancelRoot
  then show ?thesis
    using assms by (auto simp add: table_inv_def split: if_splits)
qed

lemma run_table:
  assumes "run sv es (Connect os) = Some c"
  shows "table_inv c"
  by (rule run_invariant [where P = table_inv, OF step_table _ assms])
     (simp_all add: table_inv_def Connect_fields)

lemma sent_by_same: "handed c' = handed c \<Longrightarrow> sent_by k c' = sent_by k c"
  by (simp add: sent_by_def)

lemma sent_by_more:
  "handed c' = handed c @ [(t, f)] \<Longrightarrow>
     sent_by k c' = (if t = Stream k then sent_by k c @ [f] else sent_by k c)"
  by (simp add: sent_by_def)

lemma shape_ok_writer: "shape_ok p i fs w \<Longrightarrow> (w \<longrightarrow> w') \<Longrightarrow> shape_ok p i fs w'"
  by (induction p i fs w rule: shape_ok.induct) auto

lemma stream_inv_update:
  assumes inv: "stream_inv c"
    and len: "length (ops c') = length (ops c)"
    and ids: "\<And>k. op_id (ops c' ! k) = op_id (ops c ! k)"
    and w: "writer c = WReturned \<Longrightarrow> writer c' = WReturned"
    and others: "\<And>k. k \<noteq> j \<Longrightarrow> op_pc (ops c' ! k) = op_pc (ops c ! k) \<and> sent_by k c' = sent_by k c"
    and here: "j < length (ops c) \<Longrightarrow>
       shape_ok (op_pc (ops c ! j)) (op_id (ops c ! j)) (sent_by j c) (writer c = WReturned) \<Longrightarrow>
       shape_ok (op_pc (ops c' ! j)) (op_id (ops c ! j)) (sent_by j c') (writer c' = WReturned)"
    and beyond: "\<not> j < length (ops c) \<Longrightarrow> sent_by j c' = sent_by j c"
  shows "stream_inv c'"
  unfolding stream_inv_def
proof
  fix k
  from inv have k: "if k < length (ops c)
      then shape_ok (op_pc (ops c ! k)) (op_id (ops c ! k)) (sent_by k c) (writer c = WReturned)
      else sent_by k c = []"
    by (simp add: stream_inv_def)
  show "if k < length (ops c')
      then shape_ok (op_pc (ops c' ! k)) (op_id (ops c' ! k)) (sent_by k c') (writer c' = WReturned)
      else sent_by k c' = []"
  proof (cases "k = j")
    case True
    then show ?thesis
      using k len ids here beyond by (auto split: if_splits)
  next
    case False
    then show ?thesis
      using k len ids others [OF False] w shape_ok_writer by (auto split: if_splits)
  qed
qed

lemma stream_inv_frame:
  assumes inv: "stream_inv c"
    and len: "length (ops c') = length (ops c)"
    and ids: "\<And>k. op_id (ops c' ! k) = op_id (ops c ! k)"
    and pcs: "\<And>k. op_pc (ops c' ! k) = op_pc (ops c ! k)"
    and w: "writer c = WReturned \<Longrightarrow> writer c' = WReturned"
    and sent: "\<And>k. sent_by k c' = sent_by k c"
  shows "stream_inv c'"
proof (rule stream_inv_update [OF inv len ids w, where j = 0])
  show "\<And>k. k \<noteq> 0 \<Longrightarrow> op_pc (ops c' ! k) = op_pc (ops c ! k) \<and> sent_by k c' = sent_by k c"
    using pcs sent by simp
  show "shape_ok (op_pc (ops c ! 0)) (op_id (ops c ! 0)) (sent_by 0 c) (writer c = WReturned) \<Longrightarrow>
       shape_ok (op_pc (ops c' ! 0)) (op_id (ops c ! 0)) (sent_by 0 c') (writer c' = WReturned)"
    using pcs sent w shape_ok_writer by auto
  show "sent_by 0 c' = sent_by 0 c"
    using sent by simp
qed

lemma handle_ops:
  assumes "j < length (ops c)"
  shows "op_pc (ops (handle sv msg c) ! j) = op_pc (ops c ! j)"
    and "op_id (ops (handle sv msg c) ! j) = op_id (ops c ! j)"
  using assms
  by (auto simp add: handle_def handleStart_def handleStop_def nth_append
      split: option.splits sum.splits)

lemma handle_new_op:
  "length (ops (handle sv msg c)) = length (ops c)
   \<or> (length (ops (handle sv msg c)) = Suc (length (ops c))
      \<and> (op_pc (ops (handle sv msg c) ! length (ops c)) = AtSelect
         \<or> op_pc (ops (handle sv msg c) ! length (ops c)) = NoGoroutine))"
  by (auto simp add: handle_def handleStart_def split: option.splits sum.splits)

lemma handle_stream:
  assumes "stream_inv c"
  shows "stream_inv (handle sv msg c)"
  unfolding stream_inv_def
proof
  fix k
  let ?c = "handle sv msg c"
  have s: "sent_by k ?c = sent_by k c" "writer ?c = writer c"
    by (simp_all add: sent_by_def)
  from assms have k: "if k < length (ops c)
      then shape_ok (op_pc (ops c ! k)) (op_id (ops c ! k)) (sent_by k c) (writer c = WReturned)
      else sent_by k c = []"
    by (simp add: stream_inv_def)
  consider "k < length (ops c)" | "k = length (ops c)" | "length (ops c) < k"
    by linarith
  then show "if k < length (ops ?c)
      then shape_ok (op_pc (ops ?c ! k)) (op_id (ops ?c ! k)) (sent_by k ?c) (writer ?c = WReturned)
      else sent_by k ?c = []"
  proof cases
    case 1
    then show ?thesis
      using k handle_new_op [of sv msg c] handle_ops [OF 1, of sv msg] s by auto
  next
    case 2
    then show ?thesis
      using k handle_new_op [of sv msg c] s by auto
  next
    case 3
    then show ?thesis
      using k handle_new_op [of sv msg c] s by auto
  qed
qed

lemma body_frame_not_complete [simp]: "\<not> body_frame i (frame j typeComplete p)"
  by (simp add: body_frame_def frame_def type_defs)

lemma body_frame_frames [simp]:
  "body_frame i (frame i typeData p)" "body_frame i (frame i typeError p)"
  by (simp_all add: body_frame_def frame_def)

lemma step_stream:
  assumes "stream_inv c" and "step sv e c = Some c'"
  shows "stream_inv c'"
proof (cases e)
  case (ReadJSON r)
  show ?thesis
  proof (cases r)
    case ReadError
    then show ?thesis
      using assms ReadJSON
      by (auto intro!: stream_inv_frame [OF assms(1)] simp add: sent_by_def split: if_splits)
  next
    case (ReadOK msg)
    then show ?thesis
      using assms ReadJSON handle_stream [OF assms(1), of sv msg] by (auto split: if_splits)
  qed
next
  case (SendHandoff t)
  show ?thesis
  proof (cases t)
    case Dispatcher
    then show ?thesis
      using assms SendHandoff
      by (auto intro!: stream_inv_frame [OF assms(1)]
          simp add: sent_by_def returned_from_send_Dispatcher
          split: option.splits if_splits disp_pc.splits list.splits)
  next
    case (Stream j)
    from assms SendHandoff Stream obtain f a where
      j: "j < length (ops c)" and pc: "op_pc (ops c ! j) = Sending f a" and w: "writer c = WSelect"
      and c': "c' = returned_from_send (Stream j)
                      (c\<lparr>writer := WCheck f, handed := handed c @ [(Stream j, f)]\<rparr>)"
      by (auto split: option.splits if_splits stream_pc.splits)
    have h: "handed c' = handed c @ [(Stream j, f)]" and w': "writer c' = WCheck f"
      using c' by simp_all
    show ?thesis
    proof (rule stream_inv_update [OF assms(1), where j = j])
      show "length (ops c') = length (ops c)"
        using c' by simp
      show "\<And>k. op_id (ops c' ! k) = op_id (ops c ! k)"
        using c' by (simp add: returned_from_send_Stream)
      show "writer c = WReturned \<Longrightarrow> writer c' = WReturned"
        using w by simp
      show "\<And>k. k \<noteq> j \<Longrightarrow> op_pc (ops c' ! k) = op_pc (ops c ! k) \<and> sent_by k c' = sent_by k c"
        using c' sent_by_more [OF h] by (simp add: returned_from_send_Stream)
      show "shape_ok (op_pc (ops c ! j)) (op_id (ops c ! j)) (sent_by j c) (writer c = WReturned) \<Longrightarrow>
         shape_ok (op_pc (ops c' ! j)) (op_id (ops c ! j)) (sent_by j c') (writer c' = WReturned)"
        using c' pc j w sent_by_more [OF h, of j]
        by (cases a) (simp_all add: returned_from_send_Stream)
      show "\<not> j < length (ops c) \<Longrightarrow> sent_by j c' = sent_by j c"
        using j by simp
    qed
  qed
next
  case (SendStopped t)
  show ?thesis
  proof (cases t)
    case Dispatcher
    then show ?thesis
      using assms SendStopped
      by (auto intro!: stream_inv_frame [OF assms(1)]
          simp add: sent_by_def returned_from_send_Dispatcher
          split: option.splits if_splits disp_pc.splits list.splits)
  next
    case (Stream j)
    from assms SendStopped Stream obtain f a where
      j: "j < length (ops c)" and pc: "op_pc (ops c ! j) = Sending f a" and w: "writer c = WReturned"
      and c': "c' = returned_from_send (Stream j) c"
      by (auto split: option.splits if_splits stream_pc.splits)
    have h: "handed c' = handed c" and w': "writer c' = WReturned"
      using c' w by simp_all
    show ?thesis
    proof (rule stream_inv_update [OF assms(1), where j = j])
      show "length (ops c') = length (ops c)"
        using c' by simp
      show "\<And>k. op_id (ops c' ! k) = op_id (ops c ! k)"
        using c' by (simp add: returned_from_send_Stream)
      show "writer c = WReturned \<Longrightarrow> writer c' = WReturned"
        using w' by simp
      show "\<And>k. k \<noteq> j \<Longrightarrow> op_pc (ops c' ! k) = op_pc (ops c ! k) \<and> sent_by k c' = sent_by k c"
        using c' sent_by_same [OF h] by (simp add: returned_from_send_Stream)
      show "shape_ok (op_pc (ops c ! j)) (op_id (ops c ! j)) (sent_by j c) (writer c = WReturned) \<Longrightarrow>
         shape_ok (op_pc (ops c' ! j)) (op_id (ops c ! j)) (sent_by j c') (writer c' = WReturned)"
        using c' pc j w sent_by_same [OF h, of j]
        by (cases a) (simp_all add: returned_from_send_Stream)
      show "\<not> j < length (ops c) \<Longrightarrow> sent_by j c' = sent_by j c"
        using j by simp
    qed
  qed
next
  case WriterDone
  then show ?thesis
    using assms
    by (auto intro!: stream_inv_frame [OF assms(1)] simp add: sent_by_def split: if_splits)
next
  case WriterCheck
  then show ?thesis
    using assms
    by (auto intro!: stream_inv_frame [OF assms(1)] simp add: sent_by_def
        split: if_splits writer_pc.splits)
next
  case (WriterWrite r)
  then show ?thesis
    using assms
    by (auto intro!: stream_inv_frame [OF assms(1)] simp add: sent_by_def
        split: if_splits writer_pc.splits write_result.splits)
next
  case (StreamDone j)
  with assms have j: "j < length (ops c)" and pc: "op_pc (ops c ! j) = AtSelect"
    and c': "c' = cancel_op j (set_pc j ExitCancelled c)"
    by (auto simp add: at_select_def split: if_splits)
  show ?thesis
    by (rule stream_inv_update [OF assms(1), where j = j])
      (use j pc c' in \<open>simp_all add: sent_by_def\<close>)
next
  case (StreamValue j v)
  with assms have j: "j < length (ops c)" and pc: "op_pc (ops c ! j) = AtSelect"
    and c': "c' = (case marshalValue sv v of
                Inl err \<Rightarrow>
                  set_pc j (Sending (frame (op_id (ops c ! j)) typeError (errPayload err)) Continue) c
              | Inr jsonPayload \<Rightarrow>
                  set_pc j (Sending (frame (op_id (ops c ! j)) typeData jsonPayload) Continue) c)"
    by (auto simp add: at_select_def split: if_splits)
  show ?thesis
    by (rule stream_inv_update [OF assms(1), where j = j])
      (use j pc c' in \<open>simp_all add: sent_by_def split: sum.splits\<close>)
next
  case (StreamClosed j)
  with assms have j: "j < length (ops c)" and pc: "op_pc (ops c ! j) = AtSelect"
    and c': "c' = set_pc j (Sending (frame (op_id (ops c ! j)) typeComplete []) Return) c"
    by (auto simp add: at_select_def split: if_splits)
  show ?thesis
    by (rule stream_inv_update [OF assms(1), where j = j])
      (use j pc c' in \<open>simp_all add: sent_by_def\<close>)
next
  case CancelRoot
  then show ?thesis
    using assms
    by (auto intro!: stream_inv_frame [OF assms(1)] simp add: sent_by_def)
qed

lemma run_stream:
  assumes "run sv es (Connect os) = Some c"
  shows "stream_inv c"
  by (rule run_invariant [where P = stream_inv, OF step_stream _ assms])
     (simp_all add: stream_inv_def Connect_fields sent_by_def)

lemmas handle_defs =
  handle_def handleInit_def handleStart_def handleStop_def handlePing_def handleReceive_def
  handleUnknown_def execReply_def receiveQuery_def

lemmas demo_defs = demo_def message_def type_defs

section \<open>A start message without an id\<close>



section \<open>A start message whose Subscribe fails\<close>



section \<open>The receive message\<close>



lemmas eval_defs =
  demo_defs handle_defs Connect_def defaultOpts_def sends_def called_def subscribed_def
  subscribeFailed_def close_def writer_return_def at_select_def set_pc_def cancel_op_def
  frame_def returned_from_send.simps

section \<open>Stopping twice\<close>

lemma step_opDone:
  assumes "\<not> is_read e" and "step sv e c = Some c'"
  shows "opDone c' = opDone c"
  using assms
  by (cases e) (auto split: option.splits if_splits writer_pc.splits write_result.splits sum.splits)

lemma run_opDone:
  assumes "list_all (\<lambda>e. \<not> is_read e) es" and "run sv es c = Some c'"
  shows "opDone c' = opDone c"
  using assms
proof (induction es arbitrary: c)
  case Nil
  then show ?case by simp
next
  case (Cons e es)
  then show ?case by (auto split: option.splits dest: step_opDone)
qed

lemma handle_stop:
  assumes "Type msg = typeStop"
  shows "handle sv msg c = handleStop msg c"
  using assms by (simp add: handle_def type_defs)

lemma handleStop_untracked:
  assumes "opDone c (ID msg) = None"
  shows "handleStop msg c = sends [frame (ID msg) typeComplete []] c"
  using assms by (simp add: handleStop_def)

text \<open>
  C5. Two \<^verbatim>\<open>stop\<close> messages for the same id, with no other message read between them
  (the other goroutines may take any steps \<open>mid\<close> in between): each is answered by exactly
  one \<^verbatim>\<open>complete\<close> frame with that id and nothing else, so by no error; the dispatcher
  keeps running; after the first the id is not in the table, and the second leaves the
  table as the first left it, and cancels nothing.
\<close>

theorem stop_twice:
  assumes "Type msg = typeStop"
    and "step sv (ReadJSON (ReadOK msg)) c = Some c1"
    and "list_all (\<lambda>e. \<not> is_read e) mid" and "run sv mid c1 = Some c1'"
    and "step sv (ReadJSON (ReadOK msg)) c1' = Some c2"
  shows "disp c1 = Running [frame (ID msg) typeComplete []]
       \<and> disp c2 = Running [frame (ID msg) typeComplete []]
       \<and> opDone c1 = (opDone c)(ID msg := None)
       \<and> opDone c2 = opDone c1 \<and> ops c2 = ops c1' \<and> calls c2 = calls c1'
       \<and> closes c2 = closes c1' \<and> ctx_done c2 = ctx_done c1'"
proof -
  from assms(1,2) have c1: "c1 = handleStop msg c"
    by (simp add: handle_stop split: if_splits)
  from assms(1,5) have c2: "c2 = handleStop msg c1'"
    by (simp add: handle_stop split: if_splits)
  have t1: "opDone c1 = (opDone c)(ID msg := None)"
    using c1 by simp
  have t1': "opDone c1' = opDone c1"
    using run_opDone [OF assms(3) assms(4)] .
  then have none: "opDone c1' (ID msg) = None"
    using t1 by simp
  have c2': "c2 = sends [frame (ID msg) typeComplete []] c1'"
    using c2 handleStop_untracked [OF none] by simp
  have t2: "opDone c2 = opDone c1"
    using c2' t1' by simp
  show ?thesis
    using c1 c2' t1 t2 by simp
qed

theorem stop_twice_witness:
  "Type (message ''1'' ''stop'' []) = typeStop
   \<and> list_all (\<lambda>e. \<not> is_read e) [SendHandoff Dispatcher, WriterCheck, WriterWrite WriteOK]
   \<and> (\<exists>c c1 c1' c2.
         run demo [ReadJSON (ReadOK (message ''1'' ''start'' ''Q1''))] (Connect []) = Some c
       \<and> opDone c ''1'' = Some 0
       \<and> step demo (ReadJSON (ReadOK (message ''1'' ''stop'' []))) c = Some c1
       \<and> run demo [SendHandoff Dispatcher, WriterCheck, WriterWrite WriteOK] c1 = Some c1'
       \<and> step demo (ReadJSON (ReadOK (message ''1'' ''stop'' []))) c1' = Some c2
       \<and> disp c1 = Running [frame ''1'' typeComplete []]
       \<and> disp c2 = Running [frame ''1'' typeComplete []]
       \<and> opDone c1 ''1'' = None \<and> opDone c2 = opDone c1
       \<and> wire c2 = [frame ''1'' typeComplete []])"
proof -
  let ?stop = "message ''1'' ''stop'' []"
  let ?mid = "[SendHandoff Dispatcher, WriterCheck, WriterWrite WriteOK] :: (string + rawMessage) event list"
  define c where "c = handle demo (message ''1'' ''start'' ''Q1'') (Connect [])"
  define c1 where "c1 = handle demo ?stop c"
  define c1' where "c1' = (returned_from_send Dispatcher
      (c1\<lparr>writer := WCheck (frame ''1'' typeComplete []),
          handed := handed c1 @ [(Dispatcher, frame ''1'' typeComplete [])]\<rparr>))
      \<lparr>writer := WWrite (frame ''1'' typeComplete [])\<rparr>
      \<lparr>wire := [frame ''1'' typeComplete []], writer := WSelect\<rparr>"
  define c2 where "c2 = handle demo ?stop c1'"
  have h1: "Type ?stop = typeStop"
    by (simp add: demo_defs)
  have h3: "list_all (\<lambda>e. \<not> is_read e) ?mid"
    by simp
  have r0: "run demo [ReadJSON (ReadOK (message ''1'' ''start'' ''Q1''))] (Connect []) = Some c"
    by (simp add: c_def Connect_fields)
  have c: "opDone c ''1'' = Some 0" "disp c = Running []" "writer c = WSelect" "wire c = []"
    "ctx_done c = False"
    by (simp_all add: c_def handle_defs subscribed_def demo_defs Connect_fields)
  have h2: "step demo (ReadJSON (ReadOK ?stop)) c = Some c1"
    using c by (simp add: c1_def)
  have c1: "disp c1 = Running [frame ''1'' typeComplete []]" "writer c1 = WSelect" "wire c1 = []"
    "ctx_done c1 = False"
    using c by (simp_all add: c1_def handle_defs demo_defs)
  have h4: "run demo ?mid c1 = Some c1'"
    using c1 by (simp add: c1'_def returned_from_send.simps)
  have "disp c1' = Running []"
    using c1 by (simp add: c1'_def returned_from_send_Dispatcher)
  then have h5: "step demo (ReadJSON (ReadOK ?stop)) c1' = Some c2"
    by (simp add: c2_def)
  have w: "wire c2 = [frame ''1'' typeComplete []]"
    by (simp add: c2_def c1'_def)
  have "opDone c1 ''1'' = None"
    using stop_twice [OF h1 h2 h3 h4 h5] by (simp add: demo_defs)
  then show ?thesis
    using h1 h3 r0 c(1) h2 h4 h5 w stop_twice [OF h1 h2 h3 h4 h5]
    by (auto simp add: demo_defs)
qed

section \<open>A second start with an id in use\<close>

text \<open>
  C8. In any state a connection can reach, when a \<^verbatim>\<open>start\<close> message arrives whose id is
  in the table under operation \<open>j\<close>, and its payload decodes and \<^verbatim>\<open>Subscribe\<close>
  succeeds: the table entry of the id becomes the new operation, a different one; the
  entries of the other ids stay; operation \<open>j\<close> is left as it was, so it is not cancelled
  and its goroutine stands where it stood; and no id of the table leads to \<open>j\<close> any more.
\<close>

theorem duplicate_start:
  assumes "run sv evs (Connect os) = Some c"
    and "Type msg = typeStart" and "ID msg \<noteq> ''''"
    and "unmarshalStart sv (Payload msg) = Inr osp"
    and "Subscribe sv (length (ops c)) (Query osp) (OperationName osp) (Variables osp) = None"
    and "opDone c (ID msg) = Some j" and "disp c = Running []"
  shows "\<exists>c'. step sv (ReadJSON (ReadOK msg)) c = Some c'
           \<and> opDone c' = (opDone c)(ID msg \<mapsto> length (ops c))
           \<and> j < length (ops c)
           \<and> ops c' = ops c @ [\<lparr>op_id = ID msg, op_cancelled = False, op_pc = AtSelect\<rparr>]
           \<and> ops c' ! j = ops c ! j
           \<and> (\<forall>i. opDone c' i \<noteq> Some j)
           \<and> disp c' = Running []"
proof -
  have t: "table_inv c"
    using run_table [OF assms(1)] .
  then have j: "j < length (ops c)" and only: "\<And>i. opDone c i = Some j \<Longrightarrow> i = ID msg"
    using assms(6) by (auto simp add: table_inv_def)
  have "\<And>i. ((opDone c)(ID msg \<mapsto> length (ops c))) i \<noteq> Some j"
    using j only by auto
  then show ?thesis
    using assms(2-5,7) j by (simp add: handle_defs type_defs nth_append)
qed

theorem duplicate_start_witness:
  "\<exists>c. run demo [ReadJSON (ReadOK (message ''1'' ''start'' ''Q1''))] (Connect []) = Some c
      \<and> Type (message ''1'' ''start'' ''Q2'') = typeStart \<and> ID (message ''1'' ''start'' ''Q2'') \<noteq> ''''
      \<and> unmarshalStart demo (Payload (message ''1'' ''start'' ''Q2''))
          = Inr \<lparr>OperationName = '''', Query = ''Q2'', Variables = []\<rparr>
      \<and> Subscribe demo (length (ops c)) ''Q2'' '''' [] = None
      \<and> opDone c ''1'' = Some 0 \<and> disp c = Running []
      \<and> (\<exists>c'. step demo (ReadJSON (ReadOK (message ''1'' ''start'' ''Q2''))) c = Some c'
             \<and> opDone c' ''1'' = Some 1
             \<and> ops c' = [\<lparr>op_id = ''1'', op_cancelled = False, op_pc = AtSelect\<rparr>,
                          \<lparr>op_id = ''1'', op_cancelled = False, op_pc = AtSelect\<rparr>]
             \<and> (\<forall>i. opDone c' i \<noteq> Some 0))"
proof -
  let ?m = "message ''1'' ''start'' ''Q2''"
  let ?osp = "\<lparr>OperationName = '''', Query = ''Q2'', Variables = []\<rparr>"
  define c where "c = handle demo (message ''1'' ''start'' ''Q1'') (Connect [])"
  have r: "run demo [ReadJSON (ReadOK (message ''1'' ''start'' ''Q1''))] (Connect []) = Some c"
    by (simp add: c_def Connect_fields)
  have c: "opDone c ''1'' = Some 0" "disp c = Running []"
    "ops c = [\<lparr>op_id = ''1'', op_cancelled = False, op_pc = AtSelect\<rparr>]"
    by (simp_all add: c_def handle_defs demo_defs Connect_fields)
  have h2: "Type ?m = typeStart" and h3: "ID ?m \<noteq> ''''"
    and h4: "unmarshalStart demo (Payload ?m) = Inr ?osp"
    by (simp_all add: demo_defs)
  have h5: "Subscribe demo (length (ops c)) (Query ?osp) (OperationName ?osp) (Variables ?osp) = None"
    by (simp add: demo_defs)
  have h6: "opDone c (ID ?m) = Some 0"
    using c by (simp add: demo_defs)
  from duplicate_start [OF r h2 h3 h4 h5 h6 c(2)] obtain c' where
    s: "step demo (ReadJSON (ReadOK ?m)) c = Some c'"
    and t: "opDone c' = (opDone c)(ID ?m \<mapsto> length (ops c))"
    and o: "ops c' = ops c @ [\<lparr>op_id = ID ?m, op_cancelled = False, op_pc = AtSelect\<rparr>]"
    and d: "\<forall>i. opDone c' i \<noteq> Some 0"
    by blast
  have t': "opDone c' ''1'' = Some 1"
    using t c by (simp add: message_def)
  have o': "ops c' = [\<lparr>op_id = ''1'', op_cancelled = False, op_pc = AtSelect\<rparr>,
                      \<lparr>op_id = ''1'', op_cancelled = False, op_pc = AtSelect\<rparr>]"
    using o c by (simp add: message_def)
  have h5': "Subscribe demo (length (ops c)) ''Q2'' '''' [] = None"
    using h5 by simp
  show ?thesis
    using r h2 h3 h4 h5' c(1,2) s t' o' d by blast
qed

section \<open>Teardown\<close>

text \<open>
  C2 as stated fails. When \<^verbatim>\<open>ReadJSON\<close> fails, \<^verbatim>\<open>readLoop\<close> returns and its deferred
  \<^verbatim>\<open>conn.close()\<close> cancels the context and calls \<^verbatim>\<open>ws.Close()\<close>; the writer then finds
  the context done, returns, and its own deferred \<^verbatim>\<open>conn.close()\<close> calls \<^verbatim>\<open>ws.Close()\<close>
  a second time. In the run below two operations are active at that moment; both
  goroutines end by the cancellation, and \<^verbatim>\<open>ws.Close()\<close> has been called twice.
\<close>

theorem close_twice_counterexample:
  "map_option closes (run demo read_error_run (Connect [])) = Some 2
   \<and> map_option disp (run demo read_error_run (Connect [])) = Some Returned
   \<and> map_option writer (run demo read_error_run (Connect [])) = Some WReturned
   \<and> map_option ops (run demo read_error_run (Connect []))
       = Some [\<lparr>op_id = ''1'', op_cancelled = True, op_pc = ExitCancelled\<rparr>,
               \<lparr>op_id = ''2'', op_cancelled = True, op_pc = ExitCancelled\<rparr>]"
  by (simp add: read_error_run_def eval_defs)

text \<open>
  C2, amended. In every state a connection can reach, \<^verbatim>\<open>ws.Close()\<close> has been called once
  for the dispatcher if it has returned, and once for the writer goroutine if it has
  returned, and never otherwise: at most twice, twice when both have returned, not at all
  by a cancellation from outside; and once either has returned the context is cancelled.
\<close>

theorem teardown_per_loop:
  assumes "run sv evs (Connect os) = Some c"
  shows "closes c = (if disp c = Returned then 1 else 0) + (if writer c = WReturned then 1 else 0)
       \<and> (disp c = Returned \<or> writer c = WReturned \<longrightarrow> ctx_done c)"
  using run_teardown [OF assms] by (simp add: teardown_inv_def)

theorem teardown_per_loop_witness:
  "\<exists>c. run demo [ReadJSON (ReadOK (message '''' ''connection_terminate'' []))] (Connect []) = Some c
      \<and> closes c = 1 \<and> disp c = Returned \<and> writer c = WSelect \<and> ctx_done c"
proof -
  define c where "c = handle demo (message '''' ''connection_terminate'' []) (Connect [])"
  have r: "run demo [ReadJSON (ReadOK (message '''' ''connection_terminate'' []))] (Connect []) = Some c"
    by (simp add: c_def Connect_fields)
  have c: "disp c = Returned" "writer c = WSelect"
    by (simp_all add: c_def handle_defs demo_defs Connect_fields)
  show ?thesis
    using r c teardown_per_loop [OF r] by auto
qed

section \<open>One writer\<close>




lemma wire_inv_prefix:
  assumes "wire_inv c"
  shows "take (length (wire c)) (map snd (handed c)) = wire c
       \<and> length (handed c) \<le> Suc (length (wire c))"
proof -
  have "map snd (handed c) = wire c \<or> (\<exists>f. map snd (handed c) = wire c @ [f])"
    using assms by (auto simp add: wire_inv_def split: writer_pc.splits)
  then show ?thesis
  proof
    assume "map snd (handed c) = wire c"
    then show ?thesis
      by (metis length_map le_SucI order_refl take_all)
  next
    assume "\<exists>f. map snd (handed c) = wire c @ [f]"
    then obtain f where f: "map snd (handed c) = wire c @ [f]" ..
    then have "length (handed c) = Suc (length (wire c))"
      by (metis length_append_singleton length_map)
    then show ?thesis
      using f by simp
  qed
qed



section \<open>The frames of one operation\<close>

text \<open>
  C1 as stated fails. A \<^verbatim>\<open>start\<close> with a fresh id, a payload that decodes and a
  \<^verbatim>\<open>Subscribe\<close> that succeeds; no \<^verbatim>\<open>stop\<close>, no teardown. The upstream yields a value
  that encodes, then one that \<^verbatim>\<open>json.Marshal\<close> rejects, then closes. The goroutine sends
  \<^verbatim>\<open>error\<close> for the second value and goes on (the \<^verbatim>\<open>continue\<close> of line 230), so the
  frames written for the id are \<^verbatim>\<open>data\<close>, \<^verbatim>\<open>error\<close>, \<^verbatim>\<open>complete\<close>: neither of the
  two sequences of the claim.
\<close>

theorem stream_error_counterexample:
  "map_option (wire_types ''1'') (run demo mixed_run (Connect []))
     = Some [typeData, typeError, typeComplete]
   \<and> \<not> spec_sequence [typeData, typeError, typeComplete]
   \<and> map_option ctx_done (run demo mixed_run (Connect [])) = Some False
   \<and> map_option closes (run demo mixed_run (Connect [])) = Some 0"
  by (simp add: mixed_run_def eval_defs wire_types_def spec_sequence_def)

lemma shape_ok_sequence:
  assumes "shape_ok p i fs w"
  shows "list_all (body_frame i) (butlast fs)
       \<and> (fs = [] \<or> body_frame i (last fs) \<or> last fs = frame i typeComplete [])
       \<and> (p = ExitClosed \<and> \<not> w \<longrightarrow> fs \<noteq> [] \<and> last fs = frame i typeComplete [])
       \<and> (p \<noteq> ExitClosed \<longrightarrow> list_all (body_frame i) fs)"
proof -
  have b: "list_all (body_frame i) fs \<Longrightarrow>
      list_all (body_frame i) (butlast fs) \<and> (fs = [] \<or> body_frame i (last fs))"
    by (induction fs) (auto)
  show ?thesis
    using assms b by (induction p i fs w rule: shape_ok.induct) auto
qed

lemma written_by_prefix:
  "sent_by k c = written_by k c
     @ map snd (filter (\<lambda>p. fst p = Stream k) (drop (length (wire c)) (handed c)))"
proof -
  have "handed c = take (length (wire c)) (handed c) @ drop (length (wire c)) (handed c)"
    by simp
  then have "filter (\<lambda>p. fst p = Stream k) (handed c)
      = filter (\<lambda>p. fst p = Stream k) (take (length (wire c)) (handed c))
        @ filter (\<lambda>p. fst p = Stream k) (drop (length (wire c)) (handed c))"
    by (metis filter_append)
  then show ?thesis
    by (simp add: sent_by_def written_by_def)
qed

lemma sequence_prefix:
  assumes "list_all P (butlast (a @ b))" and "a @ b = [] \<or> P (last (a @ b)) \<or> last (a @ b) = x"
  shows "list_all P (butlast a) \<and> (a = [] \<or> P (last a) \<or> last a = x)"
proof (cases "b = []")
  case True
  then show ?thesis
    using assms by simp
next
  case False
  then have "list_all P a"
    using assms(1) by (simp add: butlast_append)
  then show ?thesis
    by (cases a rule: rev_cases) (simp_all add: list_all_iff in_set_butlastD)
qed

lemma written_is_wire:
  assumes "wire_inv c"
  shows "map snd (take (length (wire c)) (handed c)) = wire c"
  using wire_inv_prefix [OF assms] by (simp add: take_map)

text \<open>
  C1, amended. In every state a connection can reach, the frames that the streaming
  goroutine of an operation has handed to the writer all carry the id of its \<^verbatim>\<open>start\<close>
  message, and all but the last are \<^verbatim>\<open>data\<close> or \<^verbatim>\<open>error\<close> frames; the last is one of
  these or the \<^verbatim>\<open>complete\<close> frame. So there is one \<^verbatim>\<open>complete\<close> at most, and nothing
  after it. There is one when the goroutine has returned after the upstream channel closed
  and the writer has not returned (no teardown); there is none as long as the goroutine
  runs, when it has returned on cancellation (a \<^verbatim>\<open>stop\<close> or a teardown), and when no
  goroutine was started. The frames of the operation that have been written to the
  transport are the first of those handed over, and so have the same form.
\<close>

theorem stream_frames:
  assumes "run sv evs (Connect os) = Some c" and "k < length (ops c)"
  shows "list_all (body_frame (op_id (ops c ! k))) (butlast (sent_by k c))
       \<and> (sent_by k c = [] \<or> body_frame (op_id (ops c ! k)) (last (sent_by k c))
          \<or> last (sent_by k c) = frame (op_id (ops c ! k)) typeComplete [])
       \<and> (op_pc (ops c ! k) = ExitClosed \<and> writer c \<noteq> WReturned \<longrightarrow>
            sent_by k c \<noteq> [] \<and> last (sent_by k c) = frame (op_id (ops c ! k)) typeComplete [])
       \<and> (op_pc (ops c ! k) \<noteq> ExitClosed \<longrightarrow>
            list_all (body_frame (op_id (ops c ! k))) (sent_by k c))
       \<and> map snd (take (length (wire c)) (handed c)) = wire c
       \<and> (\<exists>rest. sent_by k c = written_by k c @ rest)
       \<and> list_all (body_frame (op_id (ops c ! k))) (butlast (written_by k c))
       \<and> (written_by k c = [] \<or> body_frame (op_id (ops c ! k)) (last (written_by k c))
          \<or> last (written_by k c) = frame (op_id (ops c ! k)) typeComplete [])"
proof -
  have "shape_ok (op_pc (ops c ! k)) (op_id (ops c ! k)) (sent_by k c) (writer c = WReturned)"
    using run_stream [OF assms(1)] assms(2) by (simp add: stream_inv_def)
  from shape_ok_sequence [OF this] have
    s: "list_all (body_frame (op_id (ops c ! k))) (butlast (sent_by k c))
       \<and> (sent_by k c = [] \<or> body_frame (op_id (ops c ! k)) (last (sent_by k c))
          \<or> last (sent_by k c) = frame (op_id (ops c ! k)) typeComplete [])
       \<and> (op_pc (ops c ! k) = ExitClosed \<and> writer c \<noteq> WReturned \<longrightarrow>
            sent_by k c \<noteq> [] \<and> last (sent_by k c) = frame (op_id (ops c ! k)) typeComplete [])
       \<and> (op_pc (ops c ! k) \<noteq> ExitClosed \<longrightarrow>
            list_all (body_frame (op_id (ops c ! k))) (sent_by k c))"
    by simp
  obtain rest where r: "sent_by k c = written_by k c @ rest"
    using written_by_prefix [of k c] by blast
  have w: "list_all (body_frame (op_id (ops c ! k))) (butlast (written_by k c))
       \<and> (written_by k c = [] \<or> body_frame (op_id (ops c ! k)) (last (written_by k c))
          \<or> last (written_by k c) = frame (op_id (ops c ! k)) typeComplete [])"
    using s sequence_prefix [of "body_frame (op_id (ops c ! k))" "written_by k c" rest
        "frame (op_id (ops c ! k)) typeComplete []"]
    unfolding r by blast
  show ?thesis
    using s r w written_is_wire [OF run_wire [OF assms(1)]] by blast
qed

theorem stream_frames_witness:
  "\<exists>c. run demo mixed_run (Connect []) = Some c \<and> 0 < length (ops c)
      \<and> op_pc (ops c ! 0) = ExitClosed \<and> writer c \<noteq> WReturned
      \<and> sent_by 0 c = [frame ''1'' typeData ''A'',
                        frame ''1'' typeError (errPayload ''unsupported type''),
                        frame ''1'' typeComplete []]
      \<and> last (sent_by 0 c) = frame (op_id (ops c ! 0)) typeComplete []
      \<and> list_all (body_frame (op_id (ops c ! 0))) (butlast (sent_by 0 c))
      \<and> map snd (take (length (wire c)) (handed c)) = wire c"
proof -
  have "\<exists>c. run demo mixed_run (Connect []) = Some c \<and> 0 < length (ops c)
      \<and> op_pc (ops c ! 0) = ExitClosed \<and> writer c \<noteq> WReturned
      \<and> sent_by 0 c = [frame ''1'' typeData ''A'',
                        frame ''1'' typeError (errPayload ''unsupported type''),
                        frame ''1'' typeComplete []]"
    by (simp add: mixed_run_def eval_defs sent_by_def)
  then obtain c where r: "run demo mixed_run (Connect []) = Some c" and k: "0 < length (ops c)"
    and p: "op_pc (ops c ! 0) = ExitClosed" and w: "writer c \<noteq> WReturned"
    and s: "sent_by 0 c = [frame ''1'' typeData ''A'',
                        frame ''1'' typeError (errPayload ''unsupported type''),
                        frame ''1'' typeComplete []]"
    by blast
  show ?thesis
    using r k p w s stream_frames [OF r k] by blast
qed

section \<open>Frames after a stop\<close>

text \<open>
  C4 as stated fails, in two ways. In the first run the \<^verbatim>\<open>stop\<close> cancels the operation and
  its \<^verbatim>\<open>complete\<close> is written; the goroutine then stands at a \<^verbatim>\<open>select\<close> for which the
  cancellation and a pending value are both ready, Go takes either, and with the value the
  goroutine sends a \<^verbatim>\<open>data\<close> frame after the \<^verbatim>\<open>complete\<close>. In the second run the id was
  started twice: the \<^verbatim>\<open>stop\<close> cancels the second operation, and the first, which the
  table no longer knows, goes on sending \<^verbatim>\<open>data\<close> for the id.
\<close>

theorem data_after_stop_counterexample:
  "map_option (wire_types ''1'') (run demo late_value_run (Connect []))
     = Some [typeComplete, typeData]
   \<and> map_option (wire_types ''1'') (run demo replaced_run (Connect []))
     = Some [typeComplete, typeData]
   \<and> \<not> spec_after_stop [typeComplete, typeData]"
  by (simp add: late_value_run_def replaced_run_def eval_defs wire_types_def spec_after_stop_def)

lemma ops_cancel_table [simp]: "ops (cancel_op k (c\<lparr>opDone := t\<rparr>)) = ops (cancel_op k c)"
  by (simp add: cancel_op_def)

text \<open>
  C4, amended. For every \<^verbatim>\<open>stop\<close> message, whether its id is in the table or not, the
  dispatcher sends exactly one \<^verbatim>\<open>complete\<close> frame with that id and nothing else; before
  that it takes the id out of the table and cancels the scope of the operation the table
  held for it, and does nothing else. A goroutine of that operation that waits at its
  \<^verbatim>\<open>select\<close> can from then on take the cancellation, and then returns without handing
  over any frame. (What it sends before it takes the cancellation is not bounded by this.)
\<close>

theorem stop_reply:
  assumes "Type msg = typeStop" and "disp c = Running []"
  shows "\<exists>c'. step sv (ReadJSON (ReadOK msg)) c = Some c'
           \<and> disp c' = Running [frame (ID msg) typeComplete []]
           \<and> opDone c' = (opDone c)(ID msg := None)
           \<and> handed c' = handed c \<and> wire c' = wire c \<and> writer c' = writer c
           \<and> calls c' = calls c \<and> closes c' = closes c \<and> ctx_done c' = ctx_done c
           \<and> (case opDone c (ID msg) of
                 None \<Rightarrow> ops c' = ops c
               | Some k \<Rightarrow>
                   ops c' = ops (cancel_op k c)
                   \<and> (at_select k c \<longrightarrow>
                        op_cancelled (ops c' ! k)
                        \<and> (\<exists>c''. step sv (StreamDone k) c' = Some c''
                               \<and> op_pc (ops c'' ! k) = ExitCancelled
                               \<and> handed c'' = handed c' \<and> pending (Stream k) c'' = None)))"
proof -
  have s: "step sv (ReadJSON (ReadOK msg)) c = Some (handleStop msg c)"
    using assms by (simp add: handle_stop)
  have o: "case opDone c (ID msg) of
             None \<Rightarrow> ops (handleStop msg c) = ops c
           | Some k \<Rightarrow> ops (handleStop msg c) = ops (cancel_op k c)"
    by (simp add: handleStop_def split: option.splits)
  have d: "at_select k c \<Longrightarrow> opDone c (ID msg) = Some k \<Longrightarrow>
      op_cancelled (ops (handleStop msg c) ! k)
      \<and> (\<exists>c''. step sv (StreamDone k) (handleStop msg c) = Some c''
             \<and> op_pc (ops c'' ! k) = ExitCancelled
             \<and> handed c'' = handed (handleStop msg c) \<and> pending (Stream k) c'' = None)" for k
    by (simp add: handleStop_def at_select_def ops_cancel_op)
  have k: "case opDone c (ID msg) of
             None \<Rightarrow> ops (handleStop msg c) = ops c
           | Some k \<Rightarrow>
               ops (handleStop msg c) = ops (cancel_op k c)
               \<and> (at_select k c \<longrightarrow>
                    op_cancelled (ops (handleStop msg c) ! k)
                    \<and> (\<exists>c''. step sv (StreamDone k) (handleStop msg c) = Some c''
                           \<and> op_pc (ops c'' ! k) = ExitCancelled
                           \<and> handed c'' = handed (handleStop msg c)
                           \<and> pending (Stream k) c'' = None))"
  proof (cases "opDone c (ID msg)")
    case None
    then show ?thesis
      using o by simp
  next
    case (Some k)
    then show ?thesis
      using o d [of k] by (simp del: step.simps pending.simps)
  qed
  show ?thesis
    by (rule exI [of _ "handleStop msg c"]) (simp add: s k del: step.simps pending.simps)
qed

theorem stop_reply_witness:
  "\<exists>c. run demo [ReadJSON (ReadOK (message ''1'' ''start'' ''Q1''))] (Connect []) = Some c
      \<and> Type (message ''1'' ''stop'' []) = typeStop \<and> disp c = Running []
      \<and> opDone c ''1'' = Some 0 \<and> at_select 0 c
      \<and> (\<exists>c'. step demo (ReadJSON (ReadOK (message ''1'' ''stop'' []))) c = Some c'
             \<and> disp c' = Running [frame ''1'' typeComplete []]
             \<and> opDone c' ''1'' = None \<and> op_cancelled (ops c' ! 0)
             \<and> (\<exists>c''. step demo (StreamDone 0) c' = Some c''
                    \<and> op_pc (ops c'' ! 0) = ExitCancelled \<and> handed c'' = []))"
proof -
  let ?m = "message ''1'' ''stop'' []"
  have "\<exists>c. run demo [ReadJSON (ReadOK (message ''1'' ''start'' ''Q1''))] (Connect []) = Some c
      \<and> disp c = Running [] \<and> opDone c ''1'' = Some 0 \<and> at_select 0 c \<and> handed c = []"
    by (simp add: eval_defs)
  then obtain c where
    r: "run demo [ReadJSON (ReadOK (message ''1'' ''start'' ''Q1''))] (Connect []) = Some c"
    and d: "disp c = Running []" and t: "opDone c ''1'' = Some 0" and a: "at_select 0 c"
    and h: "handed c = []"
    by blast
  have h1: "Type ?m = typeStop"
    by (simp add: demo_defs)
  have i: "ID ?m = ''1''"
    by (simp add: demo_defs)
  from stop_reply [OF h1 d, of demo] obtain c' where
    s: "step demo (ReadJSON (ReadOK ?m)) c = Some c'"
    and d': "disp c' = Running [frame (ID ?m) typeComplete []]"
    and t': "opDone c' = (opDone c)(ID ?m := None)"
    and h': "handed c' = handed c"
    and k: "case opDone c (ID ?m) of
              None \<Rightarrow> ops c' = ops c
            | Some k \<Rightarrow>
                ops c' = ops (cancel_op k c)
                \<and> (at_select k c \<longrightarrow>
                     op_cancelled (ops c' ! k)
                     \<and> (\<exists>c''. step demo (StreamDone k) c' = Some c''
                            \<and> op_pc (ops c'' ! k) = ExitCancelled
                            \<and> handed c'' = handed c' \<and> pending (Stream k) c'' = None))"
    by blast
  note k0 = k [unfolded i t option.case]
  from k0 a obtain c'' where x: "op_cancelled (ops c' ! 0)"
    and s2: "step demo (StreamDone 0) c' = Some c''"
    and p2: "op_pc (ops c'' ! 0) = ExitCancelled" and h2: "handed c'' = handed c'"
    by blast
  have e1: "handed c'' = []"
    using h2 h' h by simp
  have e2: "opDone c' ''1'' = None"
    using t' i by simp
  have e3: "disp c' = Running [frame ''1'' typeComplete []]"
    using d' i by simp
  show ?thesis
    using r h1 d t a s e3 e2 x s2 p2 e1 by blast
qed

section \<open>Error payloads\<close>

subsection \<open>What the payload of an error denotes\<close>

lemma hexValue_nth:
  assumes "j < 16"
  shows "hexValue (''0123456789abcdef'' ! j) = j"
proof -
  from assms consider "j = 0" | "j = 1" | "j = 2" | "j = 3" | "j = 4" | "j = 5" | "j = 6" | "j = 7"
    | "j = 8" | "j = 9" | "j = 10" | "j = 11" | "j = 12" | "j = 13" | "j = 14" | "j = 15"
    by (auto simp add: less_Suc_eq eval_nat_numeral)
  then show ?thesis
    by cases (simp_all add: hexValue_def byte_def)
qed

lemma hexValue_hex: "hexValue (hex k) = k mod 16"
  unfolding hex_def by (rule hexValue_nth) simp

lemma hex_hexDigit: "hexDigit (hex n)"
proof -
  have "n mod 16 < length ''0123456789abcdef''"
    by simp
  then have "hex n \<in> set ''0123456789abcdef''"
    unfolding hex_def by (rule nth_mem)
  then show ?thesis
    by (auto simp add: hexDigit_def)
qed

lemma utf8_separators:
  "utf8Bytes 0x2028 = [CHR 0xE2, CHR 0x80, CHR 0xA8]"
  "utf8Bytes 0x2029 = [CHR 0xE2, CHR 0x80, CHR 0xA9]"
proof -
  have c: "char_of (of_char x :: nat) = x" for x :: char
    by simp
  show "utf8Bytes 0x2028 = [CHR 0xE2, CHR 0x80, CHR 0xA8]"
    using c [of "CHR 0xE2"] c [of "CHR 0x80"] c [of "CHR 0xA8"] by (simp add: utf8Bytes_def)
  show "utf8Bytes 0x2029 = [CHR 0xE2, CHR 0x80, CHR 0xA9]"
    using c [of "CHR 0xE2"] c [of "CHR 0x80"] c [of "CHR 0xA9"] by (simp add: utf8Bytes_def)
qed

lemma byte_quotes [simp]: "byte dquote = 34" "byte bslash = 92" "dquote \<noteq> bslash"
  by (simp_all add: byte_def dquote_def bslash_def)

lemma runeWidth_high:
  assumes "runeWidth (b # bs) \<noteq> 0"
  shows "0x80 \<le> byte b"
proof (rule ccontr)
  assume "\<not> 0x80 \<le> byte b"
  then have "runeWidth (b # bs) = 0"
    by simp
  with assms show False
    by simp
qed

lemma runeWidth_prefix:
  assumes "runeWidth (b # bs) \<noteq> 0"
  shows "runeWidth (b # bs) - 1 \<le> length bs
       \<and> runeWidth (b # take (runeWidth (b # bs) - 1) bs @ rest) = runeWidth (b # bs)"
proof -
  consider (two) "0xC2 \<le> byte b \<and> byte b \<le> 0xDF"
    | (three) "\<not> (0xC2 \<le> byte b \<and> byte b \<le> 0xDF)" "0xE0 \<le> byte b \<and> byte b \<le> 0xEF"
    | (four) "\<not> (0xC2 \<le> byte b \<and> byte b \<le> 0xDF)" "\<not> (0xE0 \<le> byte b \<and> byte b \<le> 0xEF)"
        "0xF0 \<le> byte b \<and> byte b \<le> 0xF4"
    | (none) "\<not> (0xC2 \<le> byte b \<and> byte b \<le> 0xDF)" "\<not> (0xE0 \<le> byte b \<and> byte b \<le> 0xEF)"
        "\<not> (0xF0 \<le> byte b \<and> byte b \<le> 0xF4)"
    by blast
  then show ?thesis
  proof cases
    case two
    then have w: "runeWidth (b # xs) =
        (case xs of b1 # _ \<Rightarrow> if secondByte (byte b) b1 then 2 else 0 | _ \<Rightarrow> 0)" for xs
      by simp
    show ?thesis
      using assms unfolding w by (cases bs) (simp_all split: if_splits)
  next
    case three
    then have w: "runeWidth (b # xs) =
        (case xs of
           b1 # b2 # _ \<Rightarrow> if secondByte (byte b) b1 \<and> contByte b2 then 3 else 0
         | _ \<Rightarrow> 0)" for xs
      by simp
    show ?thesis
    proof (cases bs)
      case Nil
      then show ?thesis
        using assms unfolding w by simp
    next
      case (Cons b1 r1)
      then show ?thesis
        using assms unfolding w by (cases r1) (simp_all split: if_splits)
    qed
  next
    case four
    then have w: "runeWidth (b # xs) =
        (case xs of
           b1 # b2 # b3 # _ \<Rightarrow>
             if secondByte (byte b) b1 \<and> contByte b2 \<and> contByte b3 then 4 else 0
         | _ \<Rightarrow> 0)" for xs
      by simp
    show ?thesis
    proof (cases bs)
      case Nil
      then show ?thesis
        using assms unfolding w by simp
    next
      case (Cons b1 r1)
      show ?thesis
      proof (cases r1)
        case Nil
        then show ?thesis
          using assms Cons unfolding w by simp
      next
        case (Cons b2 r2)
        then show ?thesis
          using assms \<open>bs = b1 # r1\<close> unfolding w by (cases r2) (simp_all split: if_splits)
      qed
    qed
  next
    case none
    then have "runeWidth (b # bs) = 0"
      by auto
    with assms show ?thesis
      by simp
  qed
qed

lemma jsonUnquote_u:
  assumes "hexDigit h1" "hexDigit h2" "hexDigit h3" "hexDigit h4"
    and "\<not> (0xD8 \<le> 16 * hexValue h1 + hexValue h2 \<and> 16 * hexValue h1 + hexValue h2 \<le> 0xDF)"
  shows "jsonUnquote (bslash # CHR ''u'' # h1 # h2 # h3 # h4 # rest)
       = map_option ((@) (utf8Bytes (4096 * hexValue h1 + 256 * hexValue h2
                                      + 16 * hexValue h3 + hexValue h4)))
           (jsonUnquote rest)"
  using assms by (simp add: dquote_def bslash_def)

lemma hexDigit_samples:
  "hexDigit (CHR ''0'')" "hexDigit (CHR ''2'')" "hexDigit (CHR ''8'')" "hexDigit (CHR ''9'')"
  by (simp_all add: hexDigit_def)

lemma hexValue_samples:
  "hexValue (CHR ''0'') = 0" "hexValue (CHR ''2'') = 2" "hexValue (CHR ''8'') = 8"
  "hexValue (CHR ''9'') = 9"
  by (simp_all add: hexValue_def byte_def)

lemma jsonUnquote_separators:
  "jsonUnquote (bslash # ''u2028'' @ rest)
     = map_option ((@) [CHR 0xE2, CHR 0x80, CHR 0xA8]) (jsonUnquote rest)"
  "jsonUnquote (bslash # ''u2029'' @ rest)
     = map_option ((@) [CHR 0xE2, CHR 0x80, CHR 0xA9]) (jsonUnquote rest)"
  using jsonUnquote_u [of "CHR ''2''" "CHR ''0''" "CHR ''2''" "CHR ''8''" rest]
    jsonUnquote_u [of "CHR ''2''" "CHR ''0''" "CHR ''2''" "CHR ''9''" rest]
  by (simp_all add: hexDigit_samples hexValue_samples utf8_separators del: jsonUnquote.simps)

lemma jsonUnquote_control:
  assumes "byte b < 0x80"
  shows "jsonUnquote (bslash # CHR ''u'' # CHR ''0'' # CHR ''0'' # hex (byte b div 16)
                       # hex (byte b) # rest)
       = map_option ((#) b) (jsonUnquote rest)"
proof -
  have d: "byte b div 16 mod 16 = byte b div 16"
    using assms by simp
  have v: "16 * (byte b div 16) + byte b mod 16 = byte b"
    by simp
  have u: "utf8Bytes (byte b) = [b]"
    using assms by (simp add: utf8Bytes_def byte_def)
  have a: "(@) [b] = (#) b"
    by (simp add: fun_eq_iff)
  show ?thesis
    using jsonUnquote_u [of "CHR ''0''" "CHR ''0''" "hex (byte b div 16)" "hex (byte b)" rest]
    by (simp add: hexDigit_samples hexValue_samples hex_hexDigit hexValue_hex d v u a
        del: jsonUnquote.simps)
qed

lemma jsonUnquote_escapeByte:
  assumes "byte b < 0x80"
  shows "jsonUnquote (escapeByte b @ rest) = map_option ((#) b) (jsonUnquote rest)"
proof -
  have q: "b \<noteq> dquote \<Longrightarrow> b \<noteq> bslash \<Longrightarrow> \<not> byte b < 0x20 \<Longrightarrow>
      jsonUnquote (b # rest) = map_option ((#) b) (jsonUnquote rest)"
    using assms by simp
  have e: "jsonUnquote (bslash # dquote # rest) = map_option ((#) dquote) (jsonUnquote rest)"
    "jsonUnquote (bslash # bslash # rest) = map_option ((#) bslash) (jsonUnquote rest)"
    "jsonUnquote (bslash # CHR ''b'' # rest) = map_option ((#) (CHR 0x08)) (jsonUnquote rest)"
    "jsonUnquote (bslash # CHR ''f'' # rest) = map_option ((#) (CHR 0x0C)) (jsonUnquote rest)"
    "jsonUnquote (bslash # CHR ''n'' # rest) = map_option ((#) (CHR 0x0A)) (jsonUnquote rest)"
    "jsonUnquote (bslash # CHR ''r'' # rest) = map_option ((#) (CHR 0x0D)) (jsonUnquote rest)"
    "jsonUnquote (bslash # CHR ''t'' # rest) = map_option ((#) (CHR 0x09)) (jsonUnquote rest)"
    by (simp_all add: dquote_def bslash_def)
  show ?thesis
    unfolding escapeByte_def
    using q e jsonUnquote_control [OF assms, of rest]
    by (auto simp del: jsonUnquote.simps)
qed

lemma jsonUnquote_rune:
  assumes "runeWidth (b # bs) \<noteq> 0"
  shows "jsonUnquote (take (runeWidth (b # bs)) (b # bs) @ rest)
       = map_option ((@) (take (runeWidth (b # bs)) (b # bs))) (jsonUnquote rest)"
proof -
  let ?w = "runeWidth (b # bs)"
  have t: "take ?w (b # bs) = b # take (?w - 1) bs"
    using assms by (cases ?w) simp_all
  have h: "0x80 \<le> byte b"
    using runeWidth_high [OF assms] .
  then have n: "b \<noteq> dquote" "b \<noteq> bslash" "\<not> byte b < 0x20" "\<not> byte b < 0x80"
    by auto
  have d: "drop (?w - 1) (take (?w - 1) bs @ rest) = rest"
    using runeWidth_prefix [OF assms, of rest] by simp
  have p: "runeWidth (b # take (?w - 1) bs @ rest) = ?w"
    using runeWidth_prefix [OF assms, of rest] by simp
  have t2: "take ?w (b # take (?w - 1) bs @ rest) = b # take (?w - 1) bs"
    using assms runeWidth_prefix [OF assms, of rest] by (cases ?w) simp_all
  show ?thesis
    unfolding t using n d p t2 assms
    by (simp del: runeWidth.simps)
qed

lemma jsonUnquote_replacement:
  "jsonUnquote (replacement @ rest) = map_option ((@) replacement) (jsonUnquote rest)"
proof -
  have w: "runeWidth (CHR 0xEF # [CHR 0xBF, CHR 0xBD]) = 3"
    by (simp add: byte_def secondByte_def contByte_def)
  have "runeWidth (CHR 0xEF # [CHR 0xBF, CHR 0xBD]) \<noteq> 0"
    unfolding w by simp
  from jsonUnquote_rune [OF this, of rest] show ?thesis
    unfolding w by (simp add: replacement_def del: jsonUnquote.simps runeWidth.simps)
qed

lemma separator_width:
  assumes "take 3 (b # bs) = [CHR 0xE2, CHR 0x80, CHR 0xA8]
         \<or> take 3 (b # bs) = [CHR 0xE2, CHR 0x80, CHR 0xA9]"
  shows "runeWidth (b # bs) = 3"
proof -
  from assms obtain c r where b: "b = CHR 0xE2" and bs: "bs = CHR 0x80 # c # r"
    and c: "c = CHR 0xA8 \<or> c = CHR 0xA9"
    by (cases bs; cases "tl bs") (auto split: if_splits)
  show ?thesis
    unfolding b bs using c by (auto simp add: byte_def secondByte_def contByte_def)
qed

lemma jsonUnquote_escapeString:
  "jsonUnquote (escapeString s @ [dquote]) = Some (toValidUTF8 s)"
proof (induction s rule: escapeString.induct)
  case 1
  show ?case by simp
next
  case (2 b bs)
  consider (ascii) "byte b < 0x80"
    | (invalid) "\<not> byte b < 0x80" "runeWidth (b # bs) = 0"
    | (ls) "\<not> byte b < 0x80" "runeWidth (b # bs) \<noteq> 0"
        "take 3 (b # bs) = [CHR 0xE2, CHR 0x80, CHR 0xA8]"
    | (ps) "\<not> byte b < 0x80" "runeWidth (b # bs) \<noteq> 0"
        "take 3 (b # bs) \<noteq> [CHR 0xE2, CHR 0x80, CHR 0xA8]"
        "take 3 (b # bs) = [CHR 0xE2, CHR 0x80, CHR 0xA9]"
    | (rune) "\<not> byte b < 0x80" "runeWidth (b # bs) \<noteq> 0"
        "take 3 (b # bs) \<noteq> [CHR 0xE2, CHR 0x80, CHR 0xA8]"
        "take 3 (b # bs) \<noteq> [CHR 0xE2, CHR 0x80, CHR 0xA9]"
    by blast
  then show ?case
  proof cases
    case ascii
    then show ?thesis
      using 2(1) jsonUnquote_escapeByte [OF ascii]
      by (simp del: jsonUnquote.simps runeWidth.simps)
  next
    case invalid
    then show ?thesis
      using 2(2) jsonUnquote_replacement [of "escapeString bs @ [dquote]"]
      by (simp del: jsonUnquote.simps runeWidth.simps)
  next
    case ls
    have ih: "jsonUnquote (escapeString (drop 2 bs) @ [dquote]) = Some (toValidUTF8 (drop 2 bs))"
      using 2(3) ls by blast
    have eq: "escapeString (b # bs) = (bslash # ''u2028'') @ escapeString (drop 2 bs)"
      using ls by (simp del: runeWidth.simps)
    have w: "runeWidth (b # bs) = 3"
      using separator_width ls(3) by blast
    have v: "toValidUTF8 (b # bs) = [CHR 0xE2, CHR 0x80, CHR 0xA8] @ toValidUTF8 (drop 2 bs)"
      using ls w by (simp del: runeWidth.simps)
    show ?thesis
      unfolding eq v using ih jsonUnquote_separators(1) [of "escapeString (drop 2 bs) @ [dquote]"]
      by (simp del: jsonUnquote.simps runeWidth.simps)
  next
    case ps
    have ih: "jsonUnquote (escapeString (drop 2 bs) @ [dquote]) = Some (toValidUTF8 (drop 2 bs))"
      using 2(4) ps by blast
    have eq: "escapeString (b # bs) = (bslash # ''u2029'') @ escapeString (drop 2 bs)"
      using ps by (simp del: runeWidth.simps)
    have w: "runeWidth (b # bs) = 3"
      using separator_width ps(4) by blast
    have v: "toValidUTF8 (b # bs) = [CHR 0xE2, CHR 0x80, CHR 0xA9] @ toValidUTF8 (drop 2 bs)"
      using ps w by (simp del: runeWidth.simps)
    show ?thesis
      unfolding eq v using ih jsonUnquote_separators(2) [of "escapeString (drop 2 bs) @ [dquote]"]
      by (simp del: jsonUnquote.simps runeWidth.simps)
  next
    case rune
    have eq: "escapeString (b # bs) = take (runeWidth (b # bs)) (b # bs)
        @ escapeString (drop (runeWidth (b # bs) - 1) bs)"
      using rune by (simp only: escapeString.simps if_False)
    have ih: "jsonUnquote (escapeString (drop (runeWidth (b # bs) - 1) bs) @ [dquote])
        = Some (toValidUTF8 (drop (runeWidth (b # bs) - 1) bs))"
      using 2(5) rune by blast
    have v: "toValidUTF8 (b # bs) = take (runeWidth (b # bs)) (b # bs)
        @ toValidUTF8 (drop (runeWidth (b # bs) - 1) bs)"
      using rune by (simp del: runeWidth.simps)
    show ?thesis
      unfolding eq v using ih jsonUnquote_rune [OF rune(2)]
      by (simp only: append_assoc map_option_case option.case)
  qed
qed

lemma toValidUTF8_valid:
  assumes "validUTF8 s"
  shows "toValidUTF8 s = s"
  using assms
proof (induction s rule: toValidUTF8.induct)
  case 1
  show ?case by simp
next
  case (2 b bs)
  show ?case
  proof (cases "byte b < 0x80")
    case True
    then show ?thesis
      using 2 by (simp del: runeWidth.simps)
  next
    case False
    with 2(4) have w: "runeWidth (b # bs) \<noteq> 0"
      and v: "validUTF8 (drop (runeWidth (b # bs) - 1) bs)"
      by (simp_all del: runeWidth.simps)
    have t: "take (runeWidth (b # bs)) (b # bs) = b # take (runeWidth (b # bs) - 1) bs"
      using w by (cases "runeWidth (b # bs)") simp_all
    have "toValidUTF8 (b # bs) = take (runeWidth (b # bs)) (b # bs)
        @ toValidUTF8 (drop (runeWidth (b # bs) - 1) bs)"
      using False w by (simp del: runeWidth.simps)
    also have "\<dots> = take (runeWidth (b # bs)) (b # bs) @ drop (runeWidth (b # bs) - 1) bs"
      using 2(3) [OF False w v] by simp
    also have "\<dots> = b # bs"
      unfolding t by simp
    finally show ?thesis .
  qed
qed

text \<open>
  The field of the struct that \<^verbatim>\<open>errPayload\<close> marshals is a string, so \<^verbatim>\<open>json.Marshal\<close>
  returns bytes and no error, and the bytes are the object with the member
  \<^verbatim>\<open>message\<close>.
\<close>

lemma marshalMessage_bytes:
  \<open>marshalMessage m = Inr (''{"message":"'' @ (escapeString m @ [dquote]) @ ''}'')\<close>
  by (simp add: marshalMessage_def marshalStruct_def jsonString_def escapeByte_def byte_def
      dquote_def bslash_def)

lemma errPayload_decodes:
  "marshalMessage m = Inr (errPayload m) \<and> messageOf (errPayload m) = Some (toValidUTF8 m)"
proof -
  have e: \<open>errPayload m = ''{"message":"'' @ (escapeString m @ [dquote]) @ ''}''\<close>
    by (simp add: errPayload_def marshalMessage_bytes)
  have d: "drop 12 (errPayload m) = (escapeString m @ [dquote]) @ [CHR ''}'']"
    unfolding e by simp
  have b: "butlast (drop 12 (errPayload m)) = escapeString m @ [dquote]"
    unfolding d by (rule butlast_snoc)
  have t: \<open>take 12 (errPayload m) = ''{"message":"''\<close>
    unfolding e by simp
  have n: "errPayload m \<noteq> [] \<and> last (errPayload m) = CHR ''}''"
    unfolding e by simp
  have "marshalMessage m = Inr (errPayload m)"
    unfolding e by (rule marshalMessage_bytes)
  moreover have "messageOf (errPayload m) = Some (toValidUTF8 m)"
    using b t n jsonUnquote_escapeString [of m]
    by (simp add: messageOf_def del: jsonUnquote.simps)
  ultimately show ?thesis
    by blast
qed

subsection \<open>Where the error frames of a run come from\<close>

lemma known_frames [simp]:
  "known G (frame i typeError p) = (frame i typeError p \<in> G)"
  "known G (frame i typeConnectionError p) = (frame i typeConnectionError p \<in> G)"
  "known G (frame i typeComplete p)"
  "known G (frame i typeConnectionAck p)"
  "known G (frame i typePong p)"
  "known G (frame i typeData p)"
  by (simp_all add: known_def error_frame_def frame_def type_defs)

lemma known_mono:
  assumes "known G f"
  shows "known (G \<union> H) f"
  using assms by (simp add: known_def)

lemma tracked_mono:
  assumes "tracked G c"
  shows "tracked (G \<union> H) c"
  using assms by (simp add: tracked_def known_def)

text \<open>
  The error frames that the dispatcher has to send after it has handled a message are the
  frames of the errors that arose, in order.
\<close>

lemma error_frame_frames [simp]:
  "error_frame (frame i typeError p)" "error_frame (frame i typeConnectionError p)"
  "\<not> error_frame (frame i typeComplete p)" "\<not> error_frame (frame i typeConnectionAck p)"
  "\<not> error_frame (frame i typePong p)" "\<not> error_frame (frame i typeData p)"
  by (simp_all add: error_frame_def frame_def type_defs)

lemma init_error_frames:
  "filter error_frame (disp_frames (disp (handleInit sv msg c)))
     = map errorFrame
         (case unmarshalInit sv (Payload msg) of
            Some _ \<Rightarrow> [(''invalid payload for type: '' @ Type msg, '''', typeConnectionError)]
          | None \<Rightarrow> [])"
  by (simp add: handleInit_def sends_def split: option.splits)

lemma start_error_frames:
  "filter error_frame (disp_frames (disp (handleStart sv msg c)))
     = map errorFrame
         (if ID msg = '''' then [(''missing ID for start operation'', '''', typeConnectionError)]
          else
            (case unmarshalStart sv (Payload msg) of
               Inl _ \<Rightarrow> [(''invalid payload for type: '' @ Type msg, ID msg, typeConnectionError)]
             | Inr osp \<Rightarrow>
                 (case Subscribe sv (length (ops c)) (Query osp) (OperationName osp)
                         (Variables osp) of
                    Some err \<Rightarrow> [(err, ID msg, typeError)]
                  | None \<Rightarrow> [])))"
  by (simp add: handleStart_def sends_def split: option.splits sum.splits)

lemma exec_error_frames:
  "filter error_frame (disp_frames (disp (execReply sv msg q c)))
     = map errorFrame
         (case marshalResponse sv (Exec sv q '''' []) of
            Inl err \<Rightarrow> [(err, ID msg, typeError)]
          | Inr _ \<Rightarrow> [])"
  by (simp add: execReply_def sends_def split: sum.splits)

lemma receive_error_frames:
  "filter error_frame (disp_frames (disp (handleReceive sv msg c)))
     = map errorFrame
         (case unmarshalReceive sv (Payload msg) of
            Inl err \<Rightarrow> [(err, ID msg, typeError)]
          | Inr rp \<Rightarrow>
              (case marshalResponse sv (Exec sv (receiveQuery (rp_ID rp)) '''' []) of
                 Inl err \<Rightarrow> [(err, ID msg, typeError)]
               | Inr _ \<Rightarrow> []))"
  by (simp add: handleReceive_def exec_error_frames sends_def split: sum.splits)

lemma handle_error_frames:
  "filter error_frame (disp_frames (disp (handle sv msg c)))
     = map errorFrame (errorsOfMessage sv msg c)"
  unfolding handle_def errorsOfMessage_def
  by (simp add: init_error_frames start_error_frames receive_error_frames exec_error_frames
      handlePing_def close_def del: map_eq_Cons_conv)
lemma handle_disp_frames:
  assumes "f \<in> set (disp_frames (disp (handle sv msg c)))"
  shows "known (errorFrame ` set (errorsOfMessage sv msg c)) f"
proof -
  have "f \<in> set (filter error_frame (disp_frames (disp (handle sv msg c))))" if "error_frame f"
    using assms that by simp
  then show ?thesis
    unfolding handle_error_frames known_def by simp
qed

lemma handle_tracked:
  assumes "tracked G c"
  shows "tracked (G \<union> errorFrame ` set (errorsOfMessage sv msg c)) (handle sv msg c)"
proof -
  let ?G = "G \<union> errorFrame ` set (errorsOfMessage sv msg c)"
  have old: "tracked ?G c"
    using assms by (rule tracked_mono)
  have s: "known ?G f" if k: "k < length (ops (handle sv msg c))"
    and p: "op_pc (ops (handle sv msg c) ! k) = Sending f a" for k f a
  proof (cases "k < length (ops c)")
    case True
    then show ?thesis
      using old k p handle_ops(1) [OF True, of sv msg] by (auto simp add: tracked_def)
  next
    case False
    then show ?thesis
      using k p handle_new_op [of sv msg c] by (auto simp add: less_Suc_eq)
  qed
  have d: "known ?G f" if "f \<in> set (disp_frames (disp (handle sv msg c)))" for f
    using handle_disp_frames [OF that] by (auto simp add: known_def)
  show ?thesis
    using old s d unfolding tracked_def
    by (simp del: pending.simps)
qed

lemma pending_known:
  assumes "tracked G c" and "pending t c = Some f"
  shows "known G f"
proof (cases t)
  case Dispatcher
  then show ?thesis
    using assms by (auto simp add: tracked_def split: disp_pc.splits list.splits)
next
  case (Stream k)
  then show ?thesis
    using assms by (auto simp add: tracked_def split: if_splits stream_pc.splits)
qed

lemma returned_from_send_tracked:
  assumes "tracked G c"
  shows "(\<forall>f \<in> set (disp_frames (disp (returned_from_send t c))). known G f)
       \<and> (\<forall>k f a. k < length (ops c) \<longrightarrow> op_pc (ops (returned_from_send t c) ! k) = Sending f a
            \<longrightarrow> known G f)"
proof (cases t)
  case Dispatcher
  then show ?thesis
    using assms
    by (auto simp add: tracked_def returned_from_send_Dispatcher
        split: disp_pc.splits list.splits)
next
  case (Stream j)
  then show ?thesis
    using assms
    by (auto simp add: tracked_def returned_from_send_Stream
        split: if_splits stream_pc.splits after_send.splits)
qed

lemma step_tracked:
  assumes "tracked G c" and "step sv e c = Some c'"
  shows "tracked (G \<union> errorFrame ` set (errorsOfStep sv e c)) c'"
proof (cases e)
  case (ReadJSON r)
  show ?thesis
  proof (cases r)
    case ReadError
    then show ?thesis
      using assms ReadJSON by (auto simp add: tracked_def split: if_splits)
  next
    case (ReadOK msg)
    then show ?thesis
      using assms ReadJSON handle_tracked [OF assms(1), of sv msg] by (auto split: if_splits)
  qed
next
  case (SendHandoff t)
  with assms obtain f where p: "pending t c = Some f" and w: "writer c = WSelect"
    and c': "c' = returned_from_send t (c\<lparr>writer := WCheck f, handed := handed c @ [(t, f)]\<rparr>)"
    by (auto split: option.splits if_splits)
  let ?c = "c\<lparr>writer := WCheck f, handed := handed c @ [(t, f)]\<rparr>"
  have f: "known G f"
    using pending_known [OF assms(1) p] .
  have "tracked G ?c"
    using assms(1) f by (auto simp add: tracked_def)
  from returned_from_send_tracked [OF this, of t] this show ?thesis
    unfolding c' using SendHandoff by (simp add: tracked_def)
next
  case (SendStopped t)
  with assms have c': "c' = returned_from_send t c"
    by (auto split: option.splits if_splits)
  from returned_from_send_tracked [OF assms(1), of t] assms(1) show ?thesis
    unfolding c' using SendStopped by (simp add: tracked_def)
next
  case WriterDone
  then show ?thesis
    using assms by (auto simp add: tracked_def split: if_splits)
next
  case WriterCheck
  then show ?thesis
    using assms by (auto simp add: tracked_def split: if_splits writer_pc.splits)
next
  case (WriterWrite r)
  then show ?thesis
    using assms
    by (auto simp add: tracked_def split: if_splits writer_pc.splits write_result.splits)
next
  case (StreamDone k)
  then show ?thesis
    using assms by (auto simp add: tracked_def at_select_def split: if_splits)
next
  case (StreamValue k v)
  have old: "tracked (G \<union> errorFrame ` set (errorsOfStep sv e c)) c"
    using assms(1) by (rule tracked_mono)
  show ?thesis
    using old assms(2) StreamValue
    by (auto simp add: tracked_def at_select_def split: if_splits sum.splits)
next
  case (StreamClosed k)
  then show ?thesis
    using assms by (auto simp add: tracked_def at_select_def split: if_splits)
next
  case CancelRoot
  then show ?thesis
    using assms by (auto simp add: tracked_def)
qed

lemma run_tracked:
  assumes "tracked G c" and "run sv es c = Some c'"
  shows "tracked (G \<union> errorFrame ` set (errorsOfRun sv es c)) c'"
  using assms
proof (induction es arbitrary: c G)
  case Nil
  then show ?case by simp
next
  case (Cons e es)
  from Cons.prems(2) obtain c1 where s: "step sv e c = Some c1" and r: "run sv es c1 = Some c'"
    by (cases "step sv e c") (simp_all del: step.simps)
  have "tracked ((G \<union> errorFrame ` set (errorsOfStep sv e c))
           \<union> errorFrame ` set (errorsOfRun sv es c1)) c'"
    using Cons.IH [OF step_tracked [OF Cons.prems(1) s] r] .
  moreover have "(G \<union> errorFrame ` set (errorsOfStep sv e c))
        \<union> errorFrame ` set (errorsOfRun sv es c1)
      = G \<union> errorFrame ` set (errorsOfRun sv (e # es) c)"
    using s by (auto simp del: step.simps errorsOfStep.simps)
  ultimately show ?case
    by (simp only:)
qed

lemma Connect_tracked: "tracked {} (Connect os)"
  by (simp add: tracked_def Connect_fields)

lemma run_error_frames:
  assumes "run sv evs (Connect os) = Some c"
    and "f \<in> set (wire c) \<or> f \<in> snd ` set (handed c)"
    and "error_frame f"
  shows "f \<in> errorFrame ` set (errorsOfRun sv evs (Connect os))"
proof -
  have "tracked ({} \<union> errorFrame ` set (errorsOfRun sv evs (Connect os))) c"
    using run_tracked [OF Connect_tracked assms(1)] .
  then show ?thesis
    using assms(2,3) by (auto simp add: tracked_def known_def)
qed

subsection \<open>The claim\<close>

text \<open>
  C10 as stated fails. The service is one whose \<^verbatim>\<open>Subscribe\<close> fails with an error whose
  text is the single byte \<open>0xFF\<close>. The dispatcher reads a \<^verbatim>\<open>start\<close> with an id and a
  payload that decodes, sends \<^verbatim>\<open>error\<close> with \<^verbatim>\<open>errPayload(err)\<close> (line 208), and the
  writer writes the frame. \<^verbatim>\<open>json.Marshal\<close> has put U+FFFD in the place of the byte: the
  member \<^verbatim>\<open>message\<close> of the payload is not the text of the error, and the error text
  \<open>0xFE\<close> gives the same payload.
\<close>

theorem invalid_text_counterexample:
  \<open>\<exists>c. run garbled [ReadJSON (ReadOK (message ''1'' ''start'' ''Q1'')), SendHandoff Dispatcher,
                     WriterCheck, WriterWrite WriteOK] (Connect []) = Some c
      \<and> errorsOfRun garbled [ReadJSON (ReadOK (message ''1'' ''start'' ''Q1'')),
                               SendHandoff Dispatcher, WriterCheck, WriterWrite WriteOK]
           (Connect []) = [([CHR 0xFF], ''1'', typeError)]
      \<and> wire c = [frame ''1'' typeError (errPayload [CHR 0xFF])]
      \<and> errPayload [CHR 0xFF] = ''{"message":"'' @ [CHR 0xEF, CHR 0xBF, CHR 0xBD] @ ''"}''
      \<and> messageOf (errPayload [CHR 0xFF]) = Some [CHR 0xEF, CHR 0xBF, CHR 0xBD]
      \<and> messageOf (errPayload [CHR 0xFF]) \<noteq> Some [CHR 0xFF]
      \<and> errPayload [CHR 0xFF] = errPayload [CHR 0xFE]\<close>
proof -
  have e: \<open>errPayload [CHR 0xFF] = ''{"message":"'' @ [CHR 0xEF, CHR 0xBF, CHR 0xBD] @ ''"}''\<close>
    \<open>errPayload [CHR 0xFE] = ''{"message":"'' @ [CHR 0xEF, CHR 0xBF, CHR 0xBD] @ ''"}''\<close>
    by (simp_all add: errPayload_def marshalMessage_bytes replacement_def byte_def dquote_def)
  have m: \<open>messageOf (''{"message":"'' @ [CHR 0xEF, CHR 0xBF, CHR 0xBD] @ ''"}'')
      = Some [CHR 0xEF, CHR 0xBF, CHR 0xBD]\<close>
    by (simp add: messageOf_def byte_def dquote_def bslash_def secondByte_def contByte_def)
  have r: "\<exists>c. run garbled [ReadJSON (ReadOK (message ''1'' ''start'' ''Q1'')),
                     SendHandoff Dispatcher, WriterCheck, WriterWrite WriteOK] (Connect []) = Some c
      \<and> wire c = [frame ''1'' typeError (errPayload [CHR 0xFF])]"
    by (simp add: garbled_def eval_defs)
  have o: "errorsOfRun garbled [ReadJSON (ReadOK (message ''1'' ''start'' ''Q1'')),
                               SendHandoff Dispatcher, WriterCheck, WriterWrite WriteOK]
           (Connect []) = [([CHR 0xFF], ''1'', typeError)]"
    by (simp add: garbled_def eval_defs errorsOfMessage_def)
  show ?thesis
    using r o m unfolding e by simp
qed

text \<open>
  C10, amended. In every state a connection can reach, every frame of type \<^verbatim>\<open>error\<close> or
  \<^verbatim>\<open>connection_error\<close> that was handed to the writer or written to the transport is the
  frame that \<^verbatim>\<open>send\<close> makes of an error that arose earlier in the run, at one of the nine
  places where the code passes \<^verbatim>\<open>errPayload(...)\<close> to \<^verbatim>\<open>send\<close>: its id and its type are
  those passed there, and its payload is \<^verbatim>\<open>errPayload\<close> of that error. For every error
  text \<open>m\<close>, \<^verbatim>\<open>json.Marshal\<close> returns the bytes that \<^verbatim>\<open>errPayload\<close> returns and no error
  (the struct has one field, a string, and the encoder rejects no string), and these bytes
  are the JSON text of an object whose only member, \<^verbatim>\<open>message\<close>, has as its value \<open>m\<close>
  coerced to valid UTF-8: \<open>m\<close> itself when \<open>m\<close> is valid UTF-8.
\<close>

theorem error_payloads:
  assumes "run sv evs (Connect os) = Some c"
    and "f \<in> set (wire c) \<or> f \<in> snd ` set (handed c)"
    and "Type f = typeError \<or> Type f = typeConnectionError"
  shows "(\<exists>m i t. (m, i, t) \<in> set (errorsOfRun sv evs (Connect os))
            \<and> f = frame i t (errPayload m))
       \<and> (\<forall>m. marshalMessage m = Inr (errPayload m)
              \<and> messageOf (errPayload m) = Some (toValidUTF8 m)
              \<and> (validUTF8 m \<longrightarrow> messageOf (errPayload m) = Some m))"
proof -
  have "error_frame f"
    using assms(3) by (simp add: error_frame_def)
  from run_error_frames [OF assms(1,2) this]
  obtain r where r: "r \<in> set (errorsOfRun sv evs (Connect os))" and f: "f = errorFrame r"
    by blast
  obtain m i t where "r = (m, i, t)"
    by (cases r) blast
  with r f have "\<exists>m i t. (m, i, t) \<in> set (errorsOfRun sv evs (Connect os))
      \<and> f = frame i t (errPayload m)"
    by auto
  moreover have "marshalMessage m = Inr (errPayload m)
      \<and> messageOf (errPayload m) = Some (toValidUTF8 m)
      \<and> (validUTF8 m \<longrightarrow> messageOf (errPayload m) = Some m)" for m
    using errPayload_decodes [of m] toValidUTF8_valid [of m] by simp
  ultimately show ?thesis
    by blast
qed

theorem error_payloads_witness:
  \<open>\<exists>c. run demo [ReadJSON (ReadOK (message ''1'' ''start'' ''Q1'')),
                  StreamValue 0 (Inl ''unexpected "x"''), SendHandoff (Stream 0),
                  WriterCheck, WriterWrite WriteOK] (Connect []) = Some c
      \<and> wire c = [frame ''1'' typeError (errPayload ''unexpected "x"'')]
      \<and> Type (frame ''1'' typeError (errPayload ''unexpected "x"'')) = typeError
      \<and> errorsOfRun demo [ReadJSON (ReadOK (message ''1'' ''start'' ''Q1'')),
                            StreamValue 0 (Inl ''unexpected "x"''), SendHandoff (Stream 0),
                            WriterCheck, WriterWrite WriteOK] (Connect [])
          = [(''unexpected "x"'', ''1'', typeError)]
      \<and> errPayload ''unexpected "x"'' = ''{"message":"unexpected '' @ bslash # ''"x'' @ bslash # ''""}''
      \<and> validUTF8 ''unexpected "x"''
      \<and> messageOf (errPayload ''unexpected "x"'') = Some ''unexpected "x"''\<close>
proof -
  let ?m = \<open>''unexpected "x"''\<close>
  let ?f = "frame ''1'' typeError (errPayload ?m)"
  let ?evs = "[ReadJSON (ReadOK (message ''1'' ''start'' ''Q1'')),
               StreamValue 0 (Inl ?m), SendHandoff (Stream 0),
               WriterCheck, WriterWrite WriteOK] :: (string + rawMessage) event list"
  have "\<exists>c. run demo ?evs (Connect []) = Some c \<and> wire c = [?f]"
    by (simp add: eval_defs)
  then obtain c where r: "run demo ?evs (Connect []) = Some c" and w: "wire c = [?f]"
    by blast
  have m: "?f \<in> set (wire c) \<or> ?f \<in> snd ` set (handed c)"
    using w by simp
  have t: "Type ?f = typeError \<or> Type ?f = typeConnectionError"
    by (simp add: frame_def)
  have o: "errorsOfRun demo ?evs (Connect []) = [(?m, ''1'', typeError)]"
    by (simp add: eval_defs errorsOfMessage_def)
  have e: \<open>errPayload ?m = ''{"message":"unexpected '' @ bslash # ''"x'' @ bslash # ''""}''\<close>
    by (simp add: errPayload_def marshalMessage_bytes escapeByte_def byte_def dquote_def
        bslash_def)
  have v: "validUTF8 ?m"
    by (simp add: byte_def)
  have "messageOf (errPayload ?m) = Some ?m"
    using error_payloads [OF r m t] v by blast
  then show ?thesis
    using r w o e v by (simp add: frame_def)
qed

end
